theory Spec2Isabelle
  imports Complex_Main "HOL-Library.Word" "HOL-Library.Multiset"
begin

unbundle bit_operations_syntax

section \<open>Data model of \<^verbatim>\<open>hash64.c\<close>\<close>

text \<open>
  The C types of \<^verbatim>\<open>hash64.h\<close>: \<^verbatim>\<open>affinity_key_t\<close> is \<^verbatim>\<open>int64_t\<close>,
  \<^verbatim>\<open>affinity_ukey_t\<close> is \<^verbatim>\<open>uint64_t\<close>, \<^verbatim>\<open>affinity_value_t\<close> is \<^verbatim>\<open>uint32_t\<close>.
  A word carries no sign, so the conversion \<^verbatim>\<open>affinity_ukey_t h = key\<close> is the identity
  on the 64 bits. \<^verbatim>\<open>size_t\<close> is taken as 64 bits wide (LP64) and \<^verbatim>\<open>unsigned int\<close>
  as 32 bits wide.
\<close>

type_synonym affinity_key_t = "64 word"
type_synonym affinity_ukey_t = "64 word"
type_synonym affinity_value_t = "32 word"
type_synonym size_t = "64 word"
type_synonym unsigned_int = "32 word"

text \<open>
  \<^verbatim>\<open>struct Entry\<close>: the \<^verbatim>\<open>next\<close> pointer is the tail of the list the entry heads, so a
  chain is an \<open>Entry list\<close>, its head first. No two chains share a node.
\<close>

record Entry =
  key :: affinity_key_t
  value_e :: affinity_value_t

text \<open>
  \<^verbatim>\<open>struct HashTable\<close>: \<^verbatim>\<open>buckets\<close> is the allocated array of chain heads,
  \<^verbatim>\<open>size\<close> the bucket count the table believes it has, \<^verbatim>\<open>count\<close> the element counter.
\<close>

record HashTable =
  buckets :: "Entry list list"
  size_ht :: size_t
  count_ht :: size_t

text \<open>
  What C leaves undefined is a value of the model: a remainder by zero, and an access
  to the bucket array beyond its allocated length.
\<close>

datatype fault = DivisionByZero | OutOfBounds

section \<open>Allocation\<close>

text \<open>
  The outcome of an allocation is decided by the environment and is a parameter of
  every function that allocates: \<open>True\<close> when memory is available. \<^verbatim>\<open>calloc(n, s)\<close>
  returns \<^verbatim>\<open>NULL\<close> also when \<open>n * s\<close> does not fit \<^verbatim>\<open>size_t\<close>; the bucket arrays are
  allocated with \<open>s = sizeof(Entry *) = 8\<close>.
\<close>

definition calloc_ok :: "bool \<Rightarrow> size_t \<Rightarrow> int \<Rightarrow> bool" where
  "calloc_ok avail nmemb sz = (avail \<and> uint nmemb * sz < 2 ^ 64)"

section \<open>The hash function\<close>

text \<open>
  \<^verbatim>\<open>static inline unsigned int hash(affinity_key_t key, size_t size)\<close>: three xor-shift
  rounds and two wrapping multiplications, then the remainder by \<^verbatim>\<open>size\<close>, cut to
  32 bits by the cast to \<^verbatim>\<open>unsigned int\<close>.
\<close>

definition hash :: "affinity_key_t \<Rightarrow> size_t \<Rightarrow> fault + unsigned_int" where
  "hash k sz =
     (let h0 = (k :: affinity_ukey_t);
          h1 = h0 XOR drop_bit 33 h0;
          h2 = h1 * 0xff51afd7ed558ccd;
          h3 = h2 XOR drop_bit 33 h2;
          h4 = h3 * 0xc4ceb9fe1a85ec53;
          h5 = h4 XOR drop_bit 33 h4
      in if sz = 0 then Inl DivisionByZero else Inr (ucast (h5 mod sz)))"

section \<open>Walking a chain\<close>

text \<open>The \<^verbatim>\<open>while (current != NULL)\<close> loop of \<^verbatim>\<open>ht_get\<close> and \<^verbatim>\<open>ht_get_value\<close>.\<close>

fun chain_find :: "Entry list \<Rightarrow> affinity_key_t \<Rightarrow> affinity_value_t option" where
  "chain_find [] k = None"
| "chain_find (e # es) k = (if key e = k then Some (value_e e) else chain_find es k)"

text \<open>
  The loop of \<^verbatim>\<open>ht_put\<close>: the first entry with the key gets the new value in place;
  \<open>None\<close> when the loop ends without finding the key.
\<close>

fun chain_update :: "Entry list \<Rightarrow> affinity_key_t \<Rightarrow> affinity_value_t \<Rightarrow> Entry list option" where
  "chain_update [] k v = None"
| "chain_update (e # es) k v =
     (if key e = k then Some (e\<lparr>value_e := v\<rparr> # es)
      else (case chain_update es k v of None \<Rightarrow> None | Some es' \<Rightarrow> Some (e # es')))"

text \<open>
  The loop of \<^verbatim>\<open>ht_remove\<close>: the first entry with the key is unlinked (from the bucket
  head or from its predecessor); \<open>None\<close> when the key is not in the chain.
\<close>

fun chain_remove :: "Entry list \<Rightarrow> affinity_key_t \<Rightarrow> Entry list option" where
  "chain_remove [] k = None"
| "chain_remove (e # es) k =
     (if key e = k then Some es
      else (case chain_remove es k of None \<Rightarrow> None | Some es' \<Rightarrow> Some (e # es')))"

section \<open>Table operations\<close>

text \<open>
  \<^verbatim>\<open>ht_create\<close>: \<open>None\<close> is the \<^verbatim>\<open>NULL\<close> result. The first flag is the \<^verbatim>\<open>malloc\<close> of the
  table header, the second the \<^verbatim>\<open>calloc\<close> of the bucket array. The requested size is
  not inspected.
\<close>

definition ht_create :: "size_t \<Rightarrow> bool \<Rightarrow> bool \<Rightarrow> HashTable option" where
  "ht_create sz m c =
     (if \<not> m then None
      else if \<not> calloc_ok c sz 8 then None
      else Some \<lparr>buckets = replicate (unat sz) [], size_ht = sz, count_ht = 0\<rparr>)"

definition ht_size :: "HashTable \<Rightarrow> size_t" where
  "ht_size ht = count_ht ht"

text \<open>
  \<^verbatim>\<open>ht_load_factor\<close> divides two \<^verbatim>\<open>double\<close>s. The model divides in the reals: the
  conversions of \<^verbatim>\<open>count\<close> and \<^verbatim>\<open>size\<close> are exact below \<open>2 ^ 53\<close>, and the rounded
  quotient compares with \<open>0.75\<close> as the exact one does when \<^verbatim>\<open>size\<close> is below
  \<open>2 ^ 52\<close>. With \<^verbatim>\<open>size = 0\<close> the C value is NaN or infinite and the model's is 0;
  \<^verbatim>\<open>ht_put\<close> divides by zero in \<^verbatim>\<open>hash\<close> on either path then.
\<close>

definition ht_load_factor :: "HashTable \<Rightarrow> real" where
  "ht_load_factor ht = real (unat (count_ht ht)) / real (unat (size_ht ht))"

text \<open>
  The inner loop of \<^verbatim>\<open>ht_resize\<close>: every node of an old chain, from its head on, is
  linked in front of the new bucket its key hashes to, and counted.
\<close>

fun rehash_chain ::
  "Entry list \<Rightarrow> size_t \<Rightarrow> Entry list list \<times> size_t \<Rightarrow> fault + (Entry list list \<times> size_t)" where
  "rehash_chain [] new_size (bs, cnt) = Inr (bs, cnt)"
| "rehash_chain (e # es) new_size (bs, cnt) =
     (case hash (key e) new_size of
        Inl f \<Rightarrow> Inl f
      | Inr new_index \<Rightarrow>
          if \<not> unat new_index < length bs then Inl OutOfBounds
          else rehash_chain es new_size
                 (bs[unat new_index := e # bs ! unat new_index], cnt + 1))"

text \<open>The outer loop \<^verbatim>\<open>for (i = 0; i < old_size; i++)\<close>, over the indices it visits.\<close>

fun rehash_buckets ::
  "Entry list list \<Rightarrow> nat list \<Rightarrow> size_t \<Rightarrow> Entry list list \<times> size_t
     \<Rightarrow> fault + (Entry list list \<times> size_t)" where
  "rehash_buckets old_buckets [] new_size st = Inr st"
| "rehash_buckets old_buckets (i # is) new_size st =
     (if \<not> i < length old_buckets then Inl OutOfBounds
      else (case rehash_chain (old_buckets ! i) new_size st of
              Inl f \<Rightarrow> Inl f
            | Inr st' \<Rightarrow> rehash_buckets old_buckets is new_size st'))"

text \<open>
  \<^verbatim>\<open>ht_resize\<close>: when the new array cannot be allocated the old one is put back and
  the table is returned as it was (after a warning on \<^verbatim>\<open>stderr\<close>).
\<close>

definition ht_resize :: "HashTable \<Rightarrow> size_t \<Rightarrow> bool \<Rightarrow> fault + HashTable" where
  "ht_resize ht new_size c =
     (if \<not> calloc_ok c new_size 8 then Inr ht
      else (case rehash_buckets (buckets ht) [0..<unat (size_ht ht)] new_size
                  (replicate (unat new_size) [], 0) of
              Inl f \<Rightarrow> Inl f
            | Inr (bs, cnt) \<Rightarrow> Inr \<lparr>buckets = bs, size_ht = new_size, count_ht = cnt\<rparr>))"

text \<open>
  \<^verbatim>\<open>ht_put\<close>, with the outcome \<open>c\<close> of the \<^verbatim>\<open>calloc\<close> in \<^verbatim>\<open>ht_resize\<close> and the outcome
  \<open>m\<close> of the \<^verbatim>\<open>malloc\<close> of the new node. When that \<^verbatim>\<open>malloc\<close> fails the function
  prints an error and returns without inserting.
\<close>

definition ht_put ::
  "HashTable \<Rightarrow> affinity_key_t \<Rightarrow> affinity_value_t \<Rightarrow> bool \<Rightarrow> bool \<Rightarrow> fault + HashTable" where
  "ht_put ht k v c m =
     (case (if ht_load_factor ht > 0.75 then ht_resize ht (size_ht ht * 2) c else Inr ht) of
        Inl f \<Rightarrow> Inl f
      | Inr ht1 \<Rightarrow>
          (case hash k (size_ht ht1) of
             Inl f \<Rightarrow> Inl f
           | Inr index \<Rightarrow>
               if \<not> unat index < length (buckets ht1) then Inl OutOfBounds
               else (case chain_update (buckets ht1 ! unat index) k v of
                       Some chain \<Rightarrow>
                         Inr (ht1\<lparr>buckets := (buckets ht1)[unat index := chain]\<rparr>)
                     | None \<Rightarrow>
                         if \<not> m then Inr ht1
                         else Inr (ht1\<lparr>buckets := (buckets ht1)
                                         [unat index :=
                                            \<lparr>key = k, value_e = v\<rparr> # buckets ht1 ! unat index],
                                       count_ht := count_ht ht1 + 1\<rparr>))))"

text \<open>
  \<^verbatim>\<open>ht_get\<close>: the flag \<open>has_out\<close> says that \<^verbatim>\<open>out_value\<close> is not \<^verbatim>\<open>NULL\<close>. The result is
  the returned \<^verbatim>\<open>bool\<close> and what was written through \<^verbatim>\<open>out_value\<close>, if anything.
\<close>

definition ht_get ::
  "HashTable \<Rightarrow> affinity_key_t \<Rightarrow> bool \<Rightarrow> fault + (bool \<times> affinity_value_t option)" where
  "ht_get ht k has_out =
     (case hash k (size_ht ht) of
        Inl f \<Rightarrow> Inl f
      | Inr index \<Rightarrow>
          if \<not> unat index < length (buckets ht) then Inl OutOfBounds
          else (case chain_find (buckets ht ! unat index) k of
                  Some v \<Rightarrow> Inr (True, if has_out then Some v else None)
                | None \<Rightarrow> Inr (False, None)))"

text \<open>\<^verbatim>\<open>ht_get_value\<close>: the value, or \<open>-1\<close> converted to \<^verbatim>\<open>uint32_t\<close>.\<close>

definition ht_get_value :: "HashTable \<Rightarrow> affinity_key_t \<Rightarrow> fault + affinity_value_t" where
  "ht_get_value ht k =
     (case hash k (size_ht ht) of
        Inl f \<Rightarrow> Inl f
      | Inr index \<Rightarrow>
          if \<not> unat index < length (buckets ht) then Inl OutOfBounds
          else (case chain_find (buckets ht ! unat index) k of
                  Some v \<Rightarrow> Inr v
                | None \<Rightarrow> Inr (- 1)))"

text \<open>\<^verbatim>\<open>ht_contains\<close> is \<^verbatim>\<open>ht_get(ht, key, NULL)\<close>.\<close>

definition ht_contains :: "HashTable \<Rightarrow> affinity_key_t \<Rightarrow> fault + bool" where
  "ht_contains ht k =
     (case ht_get ht k False of Inl f \<Rightarrow> Inl f | Inr (found, w) \<Rightarrow> Inr found)"

text \<open>\<^verbatim>\<open>ht_remove\<close>: the returned \<^verbatim>\<open>bool\<close> and the table afterwards.\<close>

definition ht_remove :: "HashTable \<Rightarrow> affinity_key_t \<Rightarrow> fault + (bool \<times> HashTable)" where
  "ht_remove ht k =
     (case hash k (size_ht ht) of
        Inl f \<Rightarrow> Inl f
      | Inr index \<Rightarrow>
          if \<not> unat index < length (buckets ht) then Inl OutOfBounds
          else (case chain_remove (buckets ht ! unat index) k of
                  Some chain \<Rightarrow>
                    Inr (True, ht\<lparr>buckets := (buckets ht)[unat index := chain],
                                  count_ht := count_ht ht - 1\<rparr>)
                | None \<Rightarrow> Inr (False, ht)))"

text \<open>
  The loop of \<^verbatim>\<open>ht_clear\<close>: the chain of bucket \<open>i\<close> is freed and the bucket set to
  \<^verbatim>\<open>NULL\<close>, for every \<open>i\<close> below \<^verbatim>\<open>size\<close>.
\<close>

fun clear_buckets :: "Entry list list \<Rightarrow> nat list \<Rightarrow> fault + Entry list list" where
  "clear_buckets bs [] = Inr bs"
| "clear_buckets bs (i # is) =
     (if \<not> i < length bs then Inl OutOfBounds else clear_buckets (bs[i := []]) is)"

text \<open>
  \<^verbatim>\<open>ht_clear\<close> takes the pointer, \<open>None\<close> for \<^verbatim>\<open>NULL\<close>, and returns at once on
  \<^verbatim>\<open>NULL\<close>.
\<close>

definition ht_clear :: "HashTable option \<Rightarrow> fault + HashTable option" where
  "ht_clear p =
     (case p of
        None \<Rightarrow> Inr None
      | Some ht \<Rightarrow>
          (case clear_buckets (buckets ht) [0..<unat (size_ht ht)] of
             Inl f \<Rightarrow> Inl f
           | Inr bs \<Rightarrow> Inr (Some (ht\<lparr>buckets := bs, count_ht := 0\<rparr>))))"

section \<open>The partition map of \<^verbatim>\<open>affinity.c\<close>\<close>

text \<open>
  \<^verbatim>\<open>query_partition\<close> reads the global \<^verbatim>\<open>partition_map\<close>, here its first argument
  (\<open>None\<close> for \<^verbatim>\<open>NULL\<close>). The local \<^verbatim>\<open>value\<close> starts as \<open>-1\<close> and is what \<^verbatim>\<open>ht_get\<close>
  writes through \<^verbatim>\<open>&value\<close>.
\<close>

definition query_partition :: "HashTable option \<Rightarrow> affinity_key_t \<Rightarrow> fault + affinity_value_t" where
  "query_partition partition_map k =
     (case partition_map of
        None \<Rightarrow> Inr (- 1)
      | Some ht \<Rightarrow>
          (case ht_get ht k True of
             Inl f \<Rightarrow> Inl f
           | Inr (found, w) \<Rightarrow>
               if found then Inr (case w of None \<Rightarrow> - 1 | Some v \<Rightarrow> v) else Inr (- 1)))"

section \<open>A sequence of insertions\<close>

text \<open>
  The loop of \<^verbatim>\<open>load_partition_map_disk\<close> calls \<^verbatim>\<open>ht_put\<close> once per record. A call is
  the key, the value, and the outcomes of the two allocations \<^verbatim>\<open>ht_put\<close> may make.
\<close>

fun ht_put_all ::
  "HashTable \<Rightarrow> (affinity_key_t \<times> affinity_value_t \<times> bool \<times> bool) list
     \<Rightarrow> fault + HashTable" where
  "ht_put_all ht [] = Inr ht"
| "ht_put_all ht ((k, v, c, m) # calls) =
     (case ht_put ht k v c m of Inl f \<Rightarrow> Inl f | Inr ht' \<Rightarrow> ht_put_all ht' calls)"

section \<open>Reachable tables\<close>

text \<open>
  The tables a caller can hold: created with a bucket count that is not zero, then
  changed by \<^verbatim>\<open>ht_put\<close>, \<^verbatim>\<open>ht_remove\<close> and \<^verbatim>\<open>ht_clear\<close>, whatever the allocations do.
\<close>

inductive reachable :: "HashTable \<Rightarrow> bool" where
  create: "sz \<noteq> 0 \<Longrightarrow> ht_create sz m c = Some ht \<Longrightarrow> reachable ht"
| put: "reachable ht \<Longrightarrow> ht_put ht k v c m = Inr ht' \<Longrightarrow> reachable ht'"
| remove: "reachable ht \<Longrightarrow> ht_remove ht k = Inr (b, ht') \<Longrightarrow> reachable ht'"
| clear: "reachable ht \<Longrightarrow> ht_clear (Some ht) = Inr (Some ht') \<Longrightarrow> reachable ht'"

text \<open>The same, when every resize that \<^verbatim>\<open>ht_put\<close> attempted got its bucket array.\<close>

inductive reachable_grown :: "HashTable \<Rightarrow> bool" where
  create: "sz \<noteq> 0 \<Longrightarrow> ht_create sz m c = Some ht \<Longrightarrow> reachable_grown ht"
| put: "reachable_grown ht \<Longrightarrow>
          (ht_load_factor ht > 0.75 \<longrightarrow> calloc_ok c (size_ht ht * 2) 8) \<Longrightarrow>
          ht_put ht k v c m = Inr ht' \<Longrightarrow> reachable_grown ht'"
| remove: "reachable_grown ht \<Longrightarrow> ht_remove ht k = Inr (b, ht') \<Longrightarrow> reachable_grown ht'"
| clear: "reachable_grown ht \<Longrightarrow> ht_clear (Some ht) = Inr (Some ht') \<Longrightarrow> reachable_grown ht'"

section \<open>The invariant and the map a table represents\<close>

text \<open>All nodes of the table, bucket after bucket.\<close>

definition entries :: "HashTable \<Rightarrow> Entry list" where
  "entries ht = concat (buckets ht)"

text \<open>The map from keys to values that the table stands for.\<close>

definition table_map :: "HashTable \<Rightarrow> affinity_key_t \<Rightarrow> affinity_value_t option" where
  "table_map ht k = chain_find (entries ht) k"

text \<open>An entry sits in bucket \<open>i\<close> of a table with \<open>sz\<close> buckets when its key hashes to \<open>i\<close>.\<close>

definition in_slot :: "size_t \<Rightarrow> nat \<Rightarrow> Entry \<Rightarrow> bool" where
  "in_slot sz i e = (case hash (key e) sz of Inl f \<Rightarrow> False | Inr j \<Rightarrow> unat j = i)"

definition placed :: "Entry list list \<Rightarrow> size_t \<Rightarrow> bool" where
  "placed bs sz =
     (\<forall>(i, chain) \<in> set (zip [0..<length bs] bs). \<forall>e \<in> set chain. in_slot sz i e)"

text \<open>
  The invariant of the table: the bucket count is not zero and is the length of the
  allocated array (which \<^verbatim>\<open>calloc\<close> could allocate), every entry sits in the bucket its
  key hashes to, no key occurs twice, and \<^verbatim>\<open>count\<close> is the number of entries modulo
  \<open>2 ^ 64\<close>.
\<close>

definition wf_table :: "HashTable \<Rightarrow> bool" where
  "wf_table ht \<longleftrightarrow>
     size_ht ht \<noteq> 0 \<and> uint (size_ht ht) * 8 < 2 ^ 64 \<and>
     length (buckets ht) = unat (size_ht ht) \<and>
     placed (buckets ht) (size_ht ht) \<and>
     distinct (map key (entries ht)) \<and>
     count_ht ht = of_nat (length (entries ht))"

text \<open>The bound on the number of entries that growing keeps: \<open>count \<le> 0.75 * size + 1\<close>.\<close>

definition load_bounded :: "HashTable \<Rightarrow> bool" where
  "load_bounded ht \<longleftrightarrow> 4 * length (entries ht) \<le> 3 * unat (size_ht ht) + 4"

text \<open>
  The part of \<^verbatim>\<open>ht_put\<close> after the resize check (the insertion proper), as a function of
  its own: \<open>ht_put_alt\<close> below shows that \<^verbatim>\<open>ht_put\<close> is the resize check followed by it.
\<close>

definition put_entry ::
  "HashTable \<Rightarrow> affinity_key_t \<Rightarrow> affinity_value_t \<Rightarrow> bool \<Rightarrow> fault + HashTable" where
  "put_entry ht1 k v m =
     (case hash k (size_ht ht1) of
        Inl f \<Rightarrow> Inl f
      | Inr index \<Rightarrow>
          if \<not> unat index < length (buckets ht1) then Inl OutOfBounds
          else (case chain_update (buckets ht1 ! unat index) k v of
                  Some chain \<Rightarrow>
                    Inr (ht1\<lparr>buckets := (buckets ht1)[unat index := chain]\<rparr>)
                | None \<Rightarrow>
                    if \<not> m then Inr ht1
                    else Inr (ht1\<lparr>buckets := (buckets ht1)
                                    [unat index :=
                                       \<lparr>key = k, value_e = v\<rparr> # buckets ht1 ! unat index],
                                  count_ht := count_ht ht1 + 1\<rparr>)))"

section \<open>Hashing and chains\<close>

lemma hash_zero: "hash k 0 = Inl DivisionByZero"
  by (simp add: hash_def)

lemma hash_lt: 
  assumes "sz \<noteq> 0"
  shows "\<exists>j. hash k sz = Inr j \<and> unat j < unat sz"
proof -
  obtain h :: "64 word" where h: "hash k sz = Inr (ucast (h mod sz))"
    using assms by (simp add: hash_def Let_def)
  have "unat (ucast (h mod sz) :: 32 word) \<le> unat (h mod sz)"
    by (simp add: unsigned_ucast_eq)
  moreover have "unat (h mod sz) < unat sz"
    using assms by (simp add: unat_mod unat_gt_0)
  ultimately show ?thesis using h by auto
qed

lemma chain_find_None: "chain_find es k = None \<longleftrightarrow> k \<notin> key ` set es"
  by (induction es) auto

lemma chain_find_Some:
  "distinct (map key es) \<Longrightarrow>
     chain_find es k = Some v \<longleftrightarrow> (\<exists>e \<in> set es. key e = k \<and> value_e e = v)"
  by (induction es) (auto simp: image_iff)

lemma chain_update_None: "chain_update es k v = None \<longleftrightarrow> k \<notin> key ` set es"
  by (induction es) (auto split: option.splits)

lemma chain_remove_None: "chain_remove es k = None \<longleftrightarrow> k \<notin> key ` set es"
  by (induction es) (auto split: option.splits)

lemma chain_remove_Some:
  "chain_remove es k = Some es' \<Longrightarrow> distinct (map key es) \<Longrightarrow>
     (\<exists>e. key e = k \<and> mset es = add_mset e (mset es')) \<and> k \<notin> key ` set es'"
proof (induction es arbitrary: es')
  case Nil then show ?case by simp
next
  case (Cons e es)
  show ?case
  proof (cases "key e = k")
    case True
    then show ?thesis using Cons.prems by auto
  next
    case False
    then obtain es2 where es2: "chain_remove es k = Some es2" "es' = e # es2"
      using Cons.prems by (auto split: option.splits)
    then show ?thesis using Cons.IH[OF es2(1)] Cons.prems(2) False by auto
  qed
qed

lemma mset_concat_update:
  "i < length bs \<Longrightarrow> mset (concat (bs[i := c])) + mset (bs ! i) = mset (concat bs) + mset c"
proof (induction bs arbitrary: i)
  case Nil then show ?case by simp
next
  case (Cons b bs)
  then show ?case by (cases i) (auto simp: ac_simps)
qed

section \<open>Looking a key up\<close>

lemma placed_nth: "placed bs sz \<longleftrightarrow> (\<forall>i<length bs. \<forall>e\<in>set (bs ! i). in_slot sz i e)"
  unfolding placed_def by (fastforce simp: set_zip)

lemma placed_replicate: "placed (replicate n []) sz"
  by (simp add: placed_nth)

lemma in_slot_key: "key e = key e' \<Longrightarrow> in_slot sz i e = in_slot sz i e'"
  by (simp add: in_slot_def)

lemma placed_update:
  assumes "placed bs sz" "i < length bs" "\<forall>e\<in>set c. in_slot sz i e"
  shows "placed (bs[i := c]) sz"
  using assms by (auto simp: placed_nth nth_list_update)

lemma distinct_concat_nth:
  "distinct (map f (concat bs)) \<Longrightarrow> i < length bs \<Longrightarrow> distinct (map f (bs ! i))"
proof (induction bs arbitrary: i)
  case Nil then show ?case by simp
next
  case (Cons b bs) then show ?case by (cases i) auto
qed

lemma nth_subset_concat:
  assumes "i < length bs"
  shows "set (bs ! i) \<subseteq> set (concat bs)"
proof
  fix x
  assume "x \<in> set (bs ! i)"
  moreover have "bs ! i \<in> set bs" using assms by simp
  ultimately show "x \<in> set (concat bs)" unfolding set_concat by blast
qed

lemma chain_find_entry:
  "distinct (map key es) \<Longrightarrow> chain_find es k = Some v \<longleftrightarrow> \<lparr>key = k, value_e = v\<rparr> \<in> set es"
proof -
  assume d: "distinct (map key es)"
  have "(\<exists>e \<in> set es. key e = k \<and> value_e e = v) \<longleftrightarrow> \<lparr>key = k, value_e = v\<rparr> \<in> set es"
  proof
    assume "\<exists>e \<in> set es. key e = k \<and> value_e e = v"
    then obtain e where e: "e \<in> set es" "key e = k" "value_e e = v" by blast
    then have "e = \<lparr>key = k, value_e = v\<rparr>" by simp
    then show "\<lparr>key = k, value_e = v\<rparr> \<in> set es" using e(1) by simp
  next
    assume "\<lparr>key = k, value_e = v\<rparr> \<in> set es"
    then show "\<exists>e \<in> set es. key e = k \<and> value_e e = v" by force
  qed
  then show ?thesis using chain_find_Some[OF d] by simp
qed

text \<open>The bucket a key hashes to holds every entry with that key.\<close>

lemma bucket_complete:
  assumes "placed bs sz" "hash k sz = Inr j" "e \<in> set (concat bs)" "key e = k"
  shows "unat j < length bs \<and> e \<in> set (bs ! unat j)"
proof -
  from assms(3) obtain c where c: "c \<in> set bs" "e \<in> set c" by auto
  then obtain i where i: "i < length bs" "e \<in> set (bs ! i)"
    by (metis in_set_conv_nth)
  then have "in_slot sz i e" using assms(1) by (simp add: placed_nth)
  then have "unat j = i" using assms(2,4) by (simp add: in_slot_def)
  then show ?thesis using i by simp
qed

lemma chain_find_bucket:
  assumes "placed bs sz" "hash k sz = Inr j" "unat j < length bs"
    and "distinct (map key (concat bs))"
  shows "chain_find (bs ! unat j) k = chain_find (concat bs) k"
proof (cases "chain_find (concat bs) k")
  case None
  then have "k \<notin> key ` set (concat bs)" by (simp add: chain_find_None)
  then have "k \<notin> key ` set (bs ! unat j)" using nth_subset_concat[OF assms(3)] by auto
  then have "chain_find (bs ! unat j) k = None" by (simp add: chain_find_None)
  then show ?thesis using None by simp
next
  case (Some v)
  then obtain e where e: "e \<in> set (concat bs)" "key e = k" "value_e e = v"
    using chain_find_Some[OF assms(4)] by blast
  then have "e \<in> set (bs ! unat j)" using bucket_complete[OF assms(1,2)] by blast
  then have "chain_find (bs ! unat j) k = Some v"
    using chain_find_Some[OF distinct_concat_nth[OF assms(4,3)]] e by blast
  then show ?thesis using Some by simp
qed

lemma wf_hash:
  assumes "wf_table ht"
  shows "\<exists>j. hash k (size_ht ht) = Inr j \<and> unat j < length (buckets ht)"
  using assms hash_lt[of "size_ht ht" k] by (auto simp: wf_table_def)

lemma ht_get_table_map:
  assumes "wf_table ht"
  shows "ht_get ht k b =
           Inr (case table_map ht k of None \<Rightarrow> (False, None)
                | Some v \<Rightarrow> (True, if b then Some v else None))"
proof -
  obtain j where j: "hash k (size_ht ht) = Inr j" "unat j < length (buckets ht)"
    using wf_hash[OF assms] by blast
  have "chain_find (buckets ht ! unat j) k = table_map ht k"
    unfolding table_map_def entries_def
    using assms j by (intro chain_find_bucket) (auto simp: wf_table_def entries_def)
  then show ?thesis using j by (simp add: ht_get_def split: option.splits)
qed

lemma table_map_Some:
  "wf_table ht \<Longrightarrow> table_map ht k = Some v \<longleftrightarrow> \<lparr>key = k, value_e = v\<rparr> \<in> set (entries ht)"
  by (simp add: table_map_def wf_table_def chain_find_entry)

lemma table_map_None: "table_map ht k = None \<longleftrightarrow> k \<notin> key ` set (entries ht)"
  by (simp add: table_map_def chain_find_None)

lemma dom_table_map: "dom (table_map ht) = key ` set (entries ht)"
  using table_map_None[of ht] by (auto simp: dom_def)

text \<open>Two well-formed tables with the same entries represent the same map.\<close>

lemma table_map_cong:
  assumes "wf_table ht" "wf_table ht'" "set (entries ht') = set (entries ht)"
  shows "table_map ht' = table_map ht"
proof
  fix k
  show "table_map ht' k = table_map ht k"
  proof (cases "table_map ht k")
    case None
    then have "table_map ht' k = None"
      using assms(3) table_map_None[of ht k] table_map_None[of ht' k] by simp
    then show ?thesis using None by simp
  next
    case (Some v)
    then have "table_map ht' k = Some v"
      using assms table_map_Some[of ht k v] table_map_Some[of ht' k v] by simp
    then show ?thesis using Some by simp
  qed
qed

section \<open>Insertion\<close>

lemma ht_put_alt:
  "ht_put ht k v c m =
     (case (if ht_load_factor ht > 0.75 then ht_resize ht (size_ht ht * 2) c else Inr ht) of
        Inl f \<Rightarrow> Inl f
      | Inr ht1 \<Rightarrow> put_entry ht1 k v m)"
  unfolding ht_put_def put_entry_def by (rule refl)

lemma chain_update_find:
  "chain_update es k v = Some es' \<Longrightarrow>
     chain_find es' k' = (if k' = k then Some v else chain_find es k')"
  by (induction es arbitrary: es') (auto split: option.splits if_splits)

lemma chain_update_keys: "chain_update es k v = Some es' \<Longrightarrow> map key es' = map key es"
  by (induction es arbitrary: es') (auto split: option.splits if_splits)

lemma chain_remove_find:
  "chain_remove es k = Some es' \<Longrightarrow> distinct (map key es) \<Longrightarrow>
     chain_find es' k' = (if k' = k then None else chain_find es k')"
proof (induction es arbitrary: es')
  case Nil then show ?case by simp
next
  case (Cons e es)
  show ?case
  proof (cases "key e = k")
    case True
    then have "es' = es" "k \<notin> key ` set es" using Cons.prems by auto
    then show ?thesis using True by (auto simp: chain_find_None)
  next
    case False
    then obtain es2 where es2: "chain_remove es k = Some es2" "es' = e # es2"
      using Cons.prems by (auto split: option.splits)
    then show ?thesis using Cons.IH[OF es2(1)] Cons.prems(2) False by auto
  qed
qed

lemma keys_concat_update:
  "i < length bs \<Longrightarrow> map key c = map key (bs ! i) \<Longrightarrow>
     map key (concat (bs[i := c])) = map key (concat bs)"
proof (induction bs arbitrary: i)
  case Nil then show ?case by simp
next
  case (Cons b bs) then show ?case by (cases i) auto
qed

lemma wf_bucket_update:
  assumes "wf_table ht" "i < length (buckets ht)"
    and "\<forall>e\<in>set c. in_slot (size_ht ht) i e"
    and "distinct (map key (concat ((buckets ht)[i := c])))"
    and "n = of_nat (length (concat ((buckets ht)[i := c])))"
  shows "wf_table (ht\<lparr>buckets := (buckets ht)[i := c], count_ht := n\<rparr>)"
  using assms by (simp add: wf_table_def entries_def placed_update)

text \<open>
  Replacing the chain of the bucket \<open>k\<close> hashes to, by a chain that differs from it at
  \<open>k\<close> only, changes the represented map at \<open>k\<close> only.
\<close>

lemma table_map_bucket_update:
  assumes wf: "wf_table ht" and wf': "wf_table ht'"
    and sz: "size_ht ht' = size_ht ht"
    and bs: "buckets ht' = (buckets ht)[unat j := c]"
    and j: "hash k (size_ht ht) = Inr j"
    and c: "\<And>k'. chain_find c k' = (if k' = k then x else chain_find (buckets ht ! unat j) k')"
  shows "table_map ht' = (table_map ht)(k := x)"
proof
  fix k'
  obtain j' where j': "hash k' (size_ht ht) = Inr j'" "unat j' < length (buckets ht)"
    using wf_hash[OF wf] by blast
  have len: "length (buckets ht') = length (buckets ht)" using bs by simp
  have old: "table_map ht k' = chain_find (buckets ht ! unat j') k'"
    unfolding table_map_def entries_def
    using wf j' by (intro chain_find_bucket[symmetric]) (auto simp: wf_table_def entries_def)
  have new: "table_map ht' k' = chain_find (buckets ht' ! unat j') k'"
    unfolding table_map_def entries_def
    using wf' j' sz len
    by (intro chain_find_bucket[symmetric]) (auto simp: wf_table_def entries_def)
  show "table_map ht' k' = ((table_map ht)(k := x)) k'"
  proof (cases "unat j' = unat j")
    case True
    then have "buckets ht' ! unat j' = c" using bs j'(2) by simp
    then show ?thesis using new old c[of k'] True by simp
  next
    case False
    then have "k' \<noteq> k" using j j'(1) by auto
    moreover have "buckets ht' ! unat j' = buckets ht ! unat j'" using bs False by simp
    ultimately show ?thesis using new old by simp
  qed
qed

lemma in_bucket_keys:
  assumes "i < length bs" "k \<in> key ` set (bs ! i)"
  shows "k \<in> key ` set (concat bs)"
  using assms nth_subset_concat[of i bs] by auto

lemma put_entry_wf:
  assumes wf: "wf_table ht"
  shows "\<exists>ht'. put_entry ht k v m = Inr ht' \<and> wf_table ht' \<and> size_ht ht' = size_ht ht \<and>
           (k \<in> dom (table_map ht) \<or> m \<longrightarrow> table_map ht' = (table_map ht)(k \<mapsto> v)) \<and>
           (k \<notin> dom (table_map ht) \<and> \<not> m \<longrightarrow> ht' = ht) \<and>
           count_ht ht' = (if k \<in> dom (table_map ht) \<or> \<not> m then count_ht ht else count_ht ht + 1)"
proof -
  obtain j where j: "hash k (size_ht ht) = Inr j" "unat j < length (buckets ht)"
    using wf_hash[OF wf] by blast
  let ?bs = "buckets ht" and ?i = "unat j"
  have dist: "distinct (map key (concat ?bs))" using wf by (simp add: wf_table_def entries_def)
  have pl: "\<forall>e\<in>set (?bs ! ?i). in_slot (size_ht ht) ?i e"
    using wf j(2) by (simp add: wf_table_def placed_nth)
  have cnt: "count_ht ht = of_nat (length (concat ?bs))"
    using wf by (simp add: wf_table_def entries_def)
  have find_eq: "chain_find (?bs ! ?i) k = table_map ht k"
    unfolding table_map_def entries_def
    using wf j by (intro chain_find_bucket) (auto simp: wf_table_def entries_def)
  show ?thesis
  proof (cases "chain_update (?bs ! ?i) k v")
    case (Some chain)
    let ?ht' = "ht\<lparr>buckets := ?bs[?i := chain]\<rparr>"
    have res: "put_entry ht k v m = Inr ?ht'" using j Some by (simp add: put_entry_def)
    have "chain_update (?bs ! ?i) k v \<noteq> None" using Some by simp
    then have "k \<in> key ` set (?bs ! ?i)" by (simp add: chain_update_None)
    then have kin: "k \<in> dom (table_map ht)"
      using in_bucket_keys[OF j(2)] by (simp add: dom_table_map entries_def)
    have keys: "map key chain = map key (?bs ! ?i)" using Some by (rule chain_update_keys)
    have keysc: "map key (concat (?bs[?i := chain])) = map key (concat ?bs)"
      using keys_concat_update[OF j(2) keys] .
    have pl': "\<forall>e\<in>set chain. in_slot (size_ht ht) ?i e"
    proof
      fix e assume "e \<in> set chain"
      then have "key e \<in> set (map key chain)" by simp
      then have "key e \<in> set (map key (?bs ! ?i))" using keys by simp
      then obtain e' where e': "e' \<in> set (?bs ! ?i)" "key e' = key e" by auto
      then have "in_slot (size_ht ht) ?i e'" using pl by simp
      then show "in_slot (size_ht ht) ?i e" using e'(2) in_slot_key by blast
    qed
    have len: "length (concat (?bs[?i := chain])) = length (concat ?bs)"
      using keysc by (metis length_map)
    have "wf_table (ht\<lparr>buckets := ?bs[?i := chain], count_ht := count_ht ht\<rparr>)"
      using wf j(2) pl' keysc dist cnt len by (intro wf_bucket_update) auto
    then have wf': "wf_table ?ht'" by simp
    have "table_map ?ht' = (table_map ht)(k := Some v)"
      using wf wf' j(1) chain_update_find[OF Some]
      by (intro table_map_bucket_update[where j = j and c = chain]) auto
    then show ?thesis using res wf' kin by auto
  next
    case None
    then have "k \<notin> key ` set (?bs ! ?i)" by (simp add: chain_update_None)
    then have "chain_find (?bs ! ?i) k = None" by (simp add: chain_find_None)
    then have knot: "k \<notin> dom (table_map ht)" using find_eq by (auto simp: dom_def)
    show ?thesis
    proof (cases m)
      case False
      then have "put_entry ht k v m = Inr ht" using j None by (simp add: put_entry_def)
      then show ?thesis using wf knot False by simp
    next
      case True
      let ?e = "\<lparr>key = k, value_e = v\<rparr>"
      let ?c = "?e # ?bs ! ?i"
      let ?ht' = "ht\<lparr>buckets := ?bs[?i := ?c], count_ht := count_ht ht + 1\<rparr>"
      have res: "put_entry ht k v m = Inr ?ht'" using j None True by (simp add: put_entry_def)
      have ms: "mset (concat (?bs[?i := ?c])) = add_mset ?e (mset (concat ?bs))"
        using mset_concat_update[OF j(2), of ?c] by simp
      then have "mset (map key (concat (?bs[?i := ?c]))) = mset (map key (?e # concat ?bs))"
        by simp
      then have "distinct (map key (concat (?bs[?i := ?c]))) = distinct (map key (?e # concat ?bs))"
        by (rule mset_eq_imp_distinct_iff)
      moreover have "k \<notin> key ` set (concat ?bs)"
        using knot by (simp add: dom_table_map entries_def)
      ultimately have dist': "distinct (map key (concat (?bs[?i := ?c])))"
        using dist by simp
      have "size (mset (concat (?bs[?i := ?c]))) = Suc (size (mset (concat ?bs)))"
        using ms by simp
      then have len: "length (concat (?bs[?i := ?c])) = Suc (length (concat ?bs))"
        by simp
      have "in_slot (size_ht ht) ?i ?e" using j(1) by (simp add: in_slot_def)
      then have pl': "\<forall>e\<in>set ?c. in_slot (size_ht ht) ?i e" using pl by simp
      have wf': "wf_table ?ht'"
        using wf j(2) pl' dist' cnt len by (intro wf_bucket_update) auto
      have "table_map ?ht' = (table_map ht)(k := Some v)"
        using wf wf' j(1)
        by (intro table_map_bucket_update[where j = j and c = ?c]) auto
      then show ?thesis using res wf' knot True by auto
    qed
  qed
qed

section \<open>Resize\<close>

lemma rehash_chain_ok:
  assumes "new_size \<noteq> 0" "length bs = unat new_size" "placed bs new_size"
  shows "\<exists>bs'. rehash_chain es new_size (bs, cnt) = Inr (bs', cnt + of_nat (length es)) \<and>
           length bs' = length bs \<and> placed bs' new_size \<and>
           mset (concat bs') = mset (concat bs) + mset es"
  using assms
proof (induction es arbitrary: bs cnt)
  case Nil
  then show ?case by simp
next
  case (Cons e es)
  obtain j where j: "hash (key e) new_size = Inr j" "unat j < unat new_size"
    using hash_lt[OF Cons.prems(1)] by blast
  let ?bs1 = "bs[unat j := e # bs ! unat j]"
  have jl: "unat j < length bs" using j(2) Cons.prems(2) by simp
  have "in_slot new_size (unat j) e" using j(1) by (simp add: in_slot_def)
  moreover have "\<forall>x\<in>set (bs ! unat j). in_slot new_size (unat j) x"
    using Cons.prems(3) jl by (simp add: placed_nth)
  ultimately have pl1: "placed ?bs1 new_size"
    using Cons.prems(3) jl by (intro placed_update) auto
  have len1: "length ?bs1 = unat new_size" using Cons.prems(2) by simp
  obtain bs' where bs':
    "rehash_chain es new_size (?bs1, cnt + 1) = Inr (bs', cnt + 1 + of_nat (length es))"
    "length bs' = length ?bs1" "placed bs' new_size"
    "mset (concat bs') = mset (concat ?bs1) + mset es"
    using Cons.IH[OF Cons.prems(1) len1 pl1, of "cnt + 1"] by blast
  have ms1: "mset (concat ?bs1) = add_mset e (mset (concat bs))"
    using mset_concat_update[OF jl, of "e # bs ! unat j"] by simp
  have "rehash_chain (e # es) new_size (bs, cnt) = Inr (bs', cnt + of_nat (length (e # es)))"
    using j(1) jl bs'(1) by (simp add: add.assoc add.commute)
  then show ?case using bs'(2,3,4) ms1 by simp
qed

lemma rehash_buckets_ok:
  assumes "new_size \<noteq> 0" "length bs = unat new_size" "placed bs new_size"
    and "\<forall>i\<in>set is. i < length old"
  shows "\<exists>bs'. rehash_buckets old is new_size (bs, cnt) =
                  Inr (bs', cnt + of_nat (length (concat (map ((!) old) is)))) \<and>
           length bs' = length bs \<and> placed bs' new_size \<and>
           mset (concat bs') = mset (concat bs) + mset (concat (map ((!) old) is))"
  using assms
proof (induction "is" arbitrary: bs cnt)
  case Nil
  then show ?case by simp
next
  case (Cons i "is")
  have il: "i < length old" using Cons.prems(4) by simp
  obtain bs1 where bs1:
    "rehash_chain (old ! i) new_size (bs, cnt) = Inr (bs1, cnt + of_nat (length (old ! i)))"
    "length bs1 = length bs" "placed bs1 new_size"
    "mset (concat bs1) = mset (concat bs) + mset (old ! i)"
    using rehash_chain_ok[OF Cons.prems(1,2,3), of "old ! i" cnt] by blast
  have len1: "length bs1 = unat new_size" using bs1(2) Cons.prems(2) by simp
  have rest: "\<forall>i\<in>set is. i < length old" using Cons.prems(4) by simp
  obtain bs' where bs':
    "rehash_buckets old is new_size (bs1, cnt + of_nat (length (old ! i))) =
       Inr (bs', cnt + of_nat (length (old ! i)) + of_nat (length (concat (map ((!) old) is))))"
    "length bs' = length bs1" "placed bs' new_size"
    "mset (concat bs') = mset (concat bs1) + mset (concat (map ((!) old) is))"
    using Cons.IH[OF Cons.prems(1) len1 bs1(3) rest, of "cnt + of_nat (length (old ! i))"]
    by blast
  have "rehash_buckets old (i # is) new_size (bs, cnt) =
          Inr (bs', cnt + of_nat (length (concat (map ((!) old) (i # is)))))"
    using il bs1(1) bs'(1) by (simp add: add.assoc)
  then show ?case using bs'(2,3,4) bs1(2,4) by simp
qed

lemma ht_resize_fail: "\<not> calloc_ok c new_size 8 \<Longrightarrow> ht_resize ht new_size c = Inr ht"
  by (simp add: ht_resize_def)

lemma ht_resize_wf:
  assumes wf: "wf_table ht" and nz: "new_size \<noteq> 0" and ok: "calloc_ok c new_size 8"
  shows "\<exists>ht'. ht_resize ht new_size c = Inr ht' \<and> wf_table ht' \<and> size_ht ht' = new_size \<and>
           mset (entries ht') = mset (entries ht) \<and> count_ht ht' = count_ht ht \<and>
           table_map ht' = table_map ht"
proof -
  let ?old = "buckets ht"
  let ?is = "[0..<unat (size_ht ht)]"
  have len: "length ?old = unat (size_ht ht)" using wf by (simp add: wf_table_def)
  then have all: "map ((!) ?old) ?is = ?old" by (metis map_nth)
  have idx: "\<forall>i\<in>set ?is. i < length ?old" using len by simp
  obtain bs' where bs':
    "rehash_buckets ?old ?is new_size (replicate (unat new_size) [], 0) =
       Inr (bs', 0 + of_nat (length (concat (map ((!) ?old) ?is))))"
    "length bs' = length (replicate (unat new_size) ([] :: Entry list))"
    "placed bs' new_size"
    "mset (concat bs') = mset (concat (replicate (unat new_size) [])) +
       mset (concat (map ((!) ?old) ?is))"
    using rehash_buckets_ok[OF nz _ placed_replicate idx, of "unat new_size" 0] by auto
  let ?ht' = "\<lparr>buckets = bs', size_ht = new_size, count_ht = of_nat (length (concat ?old))\<rparr>"
  have res: "ht_resize ht new_size c = Inr ?ht'"
    using ok bs'(1) all by (simp add: ht_resize_def)
  have ms: "mset (concat bs') = mset (concat ?old)" using bs'(4) all by simp
  then have "mset (map key (concat bs')) = mset (map key (concat ?old))" by simp
  then have "distinct (map key (concat bs')) = distinct (map key (concat ?old))"
    by (rule mset_eq_imp_distinct_iff)
  then have dist: "distinct (map key (concat bs'))"
    using wf by (simp add: wf_table_def entries_def)
  have "size (mset (concat bs')) = size (mset (concat ?old))" using ms by simp
  then have lenc: "length (concat bs') = length (concat ?old)" by simp
  have wf': "wf_table ?ht'"
    using nz ok bs'(2,3) dist lenc by (simp add: wf_table_def entries_def calloc_ok_def)
  have "set (concat bs') = set (concat ?old)" using ms by (metis set_mset_mset)
  then have "set (entries ?ht') = set (entries ht)" by (simp only: entries_def HashTable.simps)
  then have "table_map ?ht' = table_map ht" using wf wf' by (intro table_map_cong)
  moreover have "count_ht ?ht' = count_ht ht" using wf by (simp add: wf_table_def entries_def)
  moreover have "mset (entries ?ht') = mset (entries ht)" using ms by (simp add: entries_def)
  ultimately show ?thesis using res wf' by auto
qed

lemma wf_double:
  assumes "wf_table ht"
  shows "size_ht ht * 2 \<noteq> 0 \<and> unat (size_ht ht * 2) = 2 * unat (size_ht ht)"
proof -
  have "uint (size_ht ht) * 8 < 2 ^ 64" using assms by (simp add: wf_table_def)
  then have "int (unat (size_ht ht) * 8) < int (2 ^ 64)" by simp
  then have "unat (size_ht ht) * 8 < 2 ^ 64" by (simp only: of_nat_less_iff)
  then have b: "unat (size_ht ht) * 2 < 2 ^ 64" by simp
  have "unat (size_ht ht * 2) = unat (size_ht ht) * unat (2 :: 64 word)"
    using b by (subst unat_mult_lem[THEN iffD1]) simp_all
  then have u: "unat (size_ht ht * 2) = 2 * unat (size_ht ht)" by simp
  have "0 < unat (size_ht ht)" using assms by (simp add: wf_table_def unat_gt_0)
  then have "unat (size_ht ht * 2) \<noteq> 0" using u by simp
  then show ?thesis using u by (auto simp: unat_eq_zero)
qed

section \<open>The operations keep the invariant\<close>

lemma ht_put_wf:
  assumes wf: "wf_table ht"
  shows "\<exists>ht'. ht_put ht k v c m = Inr ht' \<and> wf_table ht' \<and>
           (k \<in> dom (table_map ht) \<or> m \<longrightarrow> table_map ht' = (table_map ht)(k \<mapsto> v)) \<and>
           (k \<notin> dom (table_map ht) \<and> \<not> m \<longrightarrow> table_map ht' = table_map ht) \<and>
           count_ht ht' =
             (if k \<in> dom (table_map ht) \<or> \<not> m then count_ht ht else count_ht ht + 1) \<and>
           size_ht ht' =
             (if ht_load_factor ht > 0.75 \<and> calloc_ok c (size_ht ht * 2) 8
              then size_ht ht * 2 else size_ht ht)"
proof -
  let ?grow = "ht_load_factor ht > 0.75 \<and> calloc_ok c (size_ht ht * 2) 8"
  have "\<exists>ht1. (if ht_load_factor ht > 0.75 then ht_resize ht (size_ht ht * 2) c else Inr ht)
                = Inr ht1 \<and>
           wf_table ht1 \<and> table_map ht1 = table_map ht \<and> count_ht ht1 = count_ht ht \<and>
           size_ht ht1 = (if ?grow then size_ht ht * 2 else size_ht ht)"
  proof (cases ?grow)
    case True
    then obtain ht' where "ht_resize ht (size_ht ht * 2) c = Inr ht'" "wf_table ht'"
      "size_ht ht' = size_ht ht * 2" "count_ht ht' = count_ht ht" "table_map ht' = table_map ht"
      using ht_resize_wf[OF wf, of "size_ht ht * 2" c] wf_double[OF wf] by blast
    then show ?thesis using True by auto
  next
    case False
    then have "(if ht_load_factor ht > 0.75 then ht_resize ht (size_ht ht * 2) c else Inr ht)
                 = Inr ht"
      by (auto simp: ht_resize_fail)
    moreover have "size_ht ht = (if ?grow then size_ht ht * 2 else size_ht ht)"
      using False by auto
    ultimately show ?thesis using wf by blast
  qed
  then obtain ht1 where ht1:
    "(if ht_load_factor ht > 0.75 then ht_resize ht (size_ht ht * 2) c else Inr ht) = Inr ht1"
    "wf_table ht1" "table_map ht1 = table_map ht" "count_ht ht1 = count_ht ht"
    "size_ht ht1 = (if ?grow then size_ht ht * 2 else size_ht ht)"
    by blast
  obtain ht' where ht': "put_entry ht1 k v m = Inr ht'" "wf_table ht'" "size_ht ht' = size_ht ht1"
    "k \<in> dom (table_map ht1) \<or> m \<longrightarrow> table_map ht' = (table_map ht1)(k \<mapsto> v)"
    "k \<notin> dom (table_map ht1) \<and> \<not> m \<longrightarrow> ht' = ht1"
    "count_ht ht' = (if k \<in> dom (table_map ht1) \<or> \<not> m then count_ht ht1 else count_ht ht1 + 1)"
    using put_entry_wf[OF ht1(2), of k v m] by blast
  have "ht_put ht k v c m = Inr ht'"
    using ht1(1) ht'(1) by (simp add: ht_put_alt)
  then show ?thesis using ht' ht1(3,4,5) by auto
qed

lemma ht_remove_wf:
  assumes wf: "wf_table ht"
  shows "\<exists>ht'. ht_remove ht k = Inr (k \<in> dom (table_map ht), ht') \<and> wf_table ht' \<and>
           size_ht ht' = size_ht ht \<and>
           table_map ht' = (table_map ht)(k := None) \<and>
           (k \<notin> dom (table_map ht) \<longrightarrow> ht' = ht) \<and>
           count_ht ht' = (if k \<in> dom (table_map ht) then count_ht ht - 1 else count_ht ht)"
proof -
  obtain j where j: "hash k (size_ht ht) = Inr j" "unat j < length (buckets ht)"
    using wf_hash[OF wf] by blast
  let ?bs = "buckets ht" and ?i = "unat j"
  have dist: "distinct (map key (concat ?bs))" using wf by (simp add: wf_table_def entries_def)
  have disti: "distinct (map key (?bs ! ?i))" using distinct_concat_nth[OF dist j(2)] .
  have pl: "\<forall>e\<in>set (?bs ! ?i). in_slot (size_ht ht) ?i e"
    using wf j(2) by (simp add: wf_table_def placed_nth)
  have cnt: "count_ht ht = of_nat (length (concat ?bs))"
    using wf by (simp add: wf_table_def entries_def)
  have find_eq: "chain_find (?bs ! ?i) k = table_map ht k"
    unfolding table_map_def entries_def
    using wf j by (intro chain_find_bucket) (auto simp: wf_table_def entries_def)
  show ?thesis
  proof (cases "chain_remove (?bs ! ?i) k")
    case None
    then have "k \<notin> key ` set (?bs ! ?i)" by (simp add: chain_remove_None)
    then have "chain_find (?bs ! ?i) k = None" by (simp add: chain_find_None)
    then have knot: "table_map ht k = None" using find_eq by simp
    then have "k \<notin> dom (table_map ht)" by (simp add: dom_def)
    moreover have "ht_remove ht k = Inr (False, ht)" using j None by (simp add: ht_remove_def)
    moreover have "(table_map ht)(k := None) = table_map ht" using knot by auto
    ultimately show ?thesis using wf by simp
  next
    case (Some chain)
    let ?ht' = "ht\<lparr>buckets := ?bs[?i := chain], count_ht := count_ht ht - 1\<rparr>"
    have res: "ht_remove ht k = Inr (True, ?ht')" using j Some by (simp add: ht_remove_def)
    have "chain_remove (?bs ! ?i) k \<noteq> None" using Some by simp
    then have "k \<in> key ` set (?bs ! ?i)" by (simp add: chain_remove_None)
    then have kin: "k \<in> dom (table_map ht)"
      using in_bucket_keys[OF j(2)] by (simp add: dom_table_map entries_def)
    obtain e where e: "key e = k" "mset (?bs ! ?i) = add_mset e (mset chain)"
      using chain_remove_Some[OF Some disti] by blast
    have "mset (concat (?bs[?i := chain])) + mset (?bs ! ?i) = mset (concat ?bs) + mset chain"
      using mset_concat_update[OF j(2)] .
    then have ms: "add_mset e (mset (concat (?bs[?i := chain]))) = mset (concat ?bs)"
      using e(2) by simp
    then have "mset (map key (e # concat (?bs[?i := chain]))) = mset (map key (concat ?bs))"
      by (metis mset.simps(2) mset_map)
    then have "distinct (map key (e # concat (?bs[?i := chain]))) = distinct (map key (concat ?bs))"
      by (rule mset_eq_imp_distinct_iff)
    then have dist': "distinct (map key (concat (?bs[?i := chain])))" using dist by simp
    have "size (add_mset e (mset (concat (?bs[?i := chain])))) = size (mset (concat ?bs))"
      using ms by simp
    then have len: "length (concat ?bs) = Suc (length (concat (?bs[?i := chain])))" by simp
    have "set chain \<subseteq> set (?bs ! ?i)" using e(2) by (metis set_mset_mset set_subset_Cons mset.simps(2) list.simps(15))
    then have pl': "\<forall>e\<in>set chain. in_slot (size_ht ht) ?i e" using pl by auto
    have "count_ht ht - 1 = of_nat (length (concat (?bs[?i := chain])))"
      using cnt len by simp
    then have wf': "wf_table ?ht'"
      using wf j(2) pl' dist' by (intro wf_bucket_update) auto
    have "table_map ?ht' = (table_map ht)(k := None)"
      using wf wf' j(1) chain_remove_find[OF Some disti]
      by (intro table_map_bucket_update[where j = j and c = chain]) auto
    then show ?thesis using res wf' kin by auto
  qed
qed

lemma clear_buckets_ok:
  assumes "\<forall>i\<in>set is. i < length bs"
  shows "\<exists>bs'. clear_buckets bs is = Inr bs' \<and> length bs' = length bs \<and>
           (\<forall>i<length bs. bs' ! i = (if i \<in> set is then [] else bs ! i))"
  using assms
proof (induction "is" arbitrary: bs)
  case Nil
  then show ?case by simp
next
  case (Cons i "is")
  have il: "i < length bs" using Cons.prems by simp
  have "\<forall>x\<in>set is. x < length (bs[i := []])" using Cons.prems by simp
  then obtain bs' where bs': "clear_buckets (bs[i := []]) is = Inr bs'"
    "length bs' = length (bs[i := []])"
    "\<forall>x<length (bs[i := []]). bs' ! x = (if x \<in> set is then [] else bs[i := []] ! x)"
    using Cons.IH[of "bs[i := []]"] by blast
  have "clear_buckets bs (i # is) = Inr bs'" using il bs'(1) by simp
  moreover have "\<forall>x<length bs. bs' ! x = (if x \<in> set (i # is) then [] else bs ! x)"
    using bs'(3) by (auto simp: nth_list_update)
  ultimately show ?case using bs'(2) by simp
qed

lemma ht_clear_wf:
  assumes wf: "wf_table ht"
  shows "ht_clear (Some ht) =
           Inr (Some (ht\<lparr>buckets := replicate (unat (size_ht ht)) [], count_ht := 0\<rparr>))"
proof -
  let ?n = "unat (size_ht ht)"
  have len: "length (buckets ht) = ?n" using wf by (simp add: wf_table_def)
  then have "\<forall>i\<in>set [0..<?n]. i < length (buckets ht)" by simp
  then obtain bs' where bs': "clear_buckets (buckets ht) [0..<?n] = Inr bs'"
    "length bs' = length (buckets ht)"
    "\<forall>i<length (buckets ht). bs' ! i = (if i \<in> set [0..<?n] then [] else buckets ht ! i)"
    using clear_buckets_ok[of "[0..<?n]" "buckets ht"] by blast
  have "bs' = replicate ?n []"
    using bs'(2,3) len by (intro nth_equalityI) auto
  then show ?thesis using bs'(1) by (simp add: ht_clear_def)
qed

lemma wf_cleared:
  assumes wf: "wf_table ht"
  shows "wf_table (ht\<lparr>buckets := replicate (unat (size_ht ht)) [], count_ht := 0\<rparr>)"
  using wf by (simp add: wf_table_def entries_def placed_replicate)

lemma table_map_empty: "entries ht = [] \<Longrightarrow> table_map ht = Map.empty"
  by (auto simp: table_map_def)

lemma ht_create_wf:
  assumes "ht_create sz m c = Some ht" "sz \<noteq> 0"
  shows "wf_table ht \<and> size_ht ht = sz \<and> count_ht ht = 0 \<and> entries ht = []"
  using assms
  by (auto simp: ht_create_def calloc_ok_def wf_table_def entries_def placed_replicate
           split: if_splits)

section \<open>Reachable tables are well formed\<close>

lemma reachable_wf: "reachable ht \<Longrightarrow> wf_table ht"
proof (induction rule: reachable.induct)
  case (create sz m c ht)
  then show ?case using ht_create_wf by blast
next
  case (put ht k v c m ht')
  then show ?case using ht_put_wf[OF put.IH, of k v c m] by auto
next
  case (remove ht k b ht')
  then show ?case using ht_remove_wf[OF remove.IH, of k] by auto
next
  case (clear ht ht')
  then show ?case using ht_clear_wf[OF clear.IH] wf_cleared[OF clear.IH] by auto
qed

lemma reachable_grown_reachable: "reachable_grown ht \<Longrightarrow> reachable ht"
  by (induction rule: reachable_grown.induct) (auto intro: reachable.intros)

lemma ht_put_all_ok:
  assumes "wf_table ht0" "distinct (map fst calls)"
    and "\<forall>k \<in> fst ` set calls. table_map ht0 k = None"
  shows "\<exists>ht. ht_put_all ht0 calls = Inr ht \<and> wf_table ht \<and>
           (\<forall>(k, v, c, m) \<in> set calls. table_map ht k = (if m then Some v else None)) \<and>
           (\<forall>k. k \<notin> fst ` set calls \<longrightarrow> table_map ht k = table_map ht0 k)"
  using assms
proof (induction calls arbitrary: ht0)
  case Nil
  then show ?case by simp
next
  case (Cons call calls)
  obtain k v c m where call: "call = (k, v, c, m)" by (cases call) auto
  have fresh: "k \<notin> dom (table_map ht0)" using Cons.prems(3) call by (auto simp: dom_def)
  obtain ht1 where ht1: "ht_put ht0 k v c m = Inr ht1" "wf_table ht1"
    "k \<in> dom (table_map ht0) \<or> m \<longrightarrow> table_map ht1 = (table_map ht0)(k \<mapsto> v)"
    "k \<notin> dom (table_map ht0) \<and> \<not> m \<longrightarrow> table_map ht1 = table_map ht0"
    using ht_put_wf[OF Cons.prems(1), of k v c m] by blast
  have tm1: "table_map ht1 k = (if m then Some v else None)"
    using ht1(3,4) fresh by (cases m) (auto simp: dom_def)
  have other1: "table_map ht1 k' = table_map ht0 k'" if "k' \<noteq> k" for k'
    using ht1(3,4) fresh that by (cases m) auto
  have knot: "k \<notin> fst ` set calls" using Cons.prems(2) call by simp
  have d: "distinct (map fst calls)" using Cons.prems(2) by simp
  have f: "\<forall>k' \<in> fst ` set calls. table_map ht1 k' = None"
  proof
    fix k' assume k': "k' \<in> fst ` set calls"
    then have "k' \<noteq> k" using knot by auto
    then have "table_map ht1 k' = table_map ht0 k'" by (rule other1)
    moreover have "k' \<in> fst ` set (call # calls)" using k' by simp
    then have "table_map ht0 k' = None" by (rule bspec[OF Cons.prems(3)])
    ultimately show "table_map ht1 k' = None" by simp
  qed
  obtain ht where ht: "ht_put_all ht1 calls = Inr ht" "wf_table ht"
    "\<forall>(k, v, c, m) \<in> set calls. table_map ht k = (if m then Some v else None)"
    "\<forall>k. k \<notin> fst ` set calls \<longrightarrow> table_map ht k = table_map ht1 k"
    using Cons.IH[OF ht1(2) d f] by blast
  have "table_map ht k = (if m then Some v else None)" using ht(4) knot tm1 by simp
  then have all: "\<forall>(k, v, c, m) \<in> set (call # calls). table_map ht k = (if m then Some v else None)"
    using ht(3) call by simp
  have rest: "\<forall>k'. k' \<notin> fst ` set (call # calls) \<longrightarrow> table_map ht k' = table_map ht0 k'"
    using ht(4) other1 call by auto
  have "ht_put_all ht0 (call # calls) = Inr ht" using call ht1(1) ht(1) by simp
  then show ?case using ht(2) all rest by blast
qed

text \<open>The load factor exceeds 0.75 exactly when \<open>4 * count > 3 * size\<close>.\<close>

lemma load_factor_gt:
  assumes "size_ht ht \<noteq> 0"
  shows "ht_load_factor ht > 0.75 \<longleftrightarrow> 3 * unat (size_ht ht) < 4 * unat (count_ht ht)"
proof -
  have "0 < unat (size_ht ht)" using assms by (simp add: unat_gt_0)
  then have pos: "0 < real (unat (size_ht ht))" by (simp only: of_nat_0_less_iff)
  have "ht_load_factor ht > 0.75 \<longleftrightarrow> 3 * real (unat (size_ht ht)) < 4 * real (unat (count_ht ht))"
    unfolding ht_load_factor_def using pos by (simp add: field_simps)
  also have "\<dots> \<longleftrightarrow> real (3 * unat (size_ht ht)) < real (4 * unat (count_ht ht))" by simp
  also have "\<dots> \<longleftrightarrow> 3 * unat (size_ht ht) < 4 * unat (count_ht ht)" by (rule of_nat_less_iff)
  finally show ?thesis .
qed

lemma wf_size_bound: "wf_table ht \<Longrightarrow> unat (size_ht ht) < 2 ^ 61"
proof -
  assume "wf_table ht"
  then have "uint (size_ht ht) * 8 < 2 ^ 64" by (simp add: wf_table_def)
  then have "int (unat (size_ht ht) * 8) < int (2 ^ 64)" by simp
  then have "unat (size_ht ht) * 8 < 2 ^ 64" by (simp only: of_nat_less_iff)
  then show ?thesis by simp
qed

lemma bounded_count:
  assumes "wf_table ht" "load_bounded ht"
  shows "unat (count_ht ht) = length (entries ht)"
proof -
  have "unat (size_ht ht) < 2 ^ 61" using wf_size_bound[OF assms(1)] .
  then have "length (entries ht) < 2 ^ 64" using assms(2) by (simp add: load_bounded_def)
  moreover have "count_ht ht = of_nat (length (entries ht))" using assms(1) by (simp add: wf_table_def)
  ultimately show ?thesis by (simp add: unat_of_nat)
qed

section \<open>The load bound\<close>

lemma entries_card:
  assumes "wf_table ht"
  shows "length (entries ht) = card (dom (table_map ht))"
proof -
  have d: "distinct (map key (entries ht))" using assms by (simp add: wf_table_def)
  have "length (entries ht) = length (map key (entries ht))" by simp
  also have "\<dots> = card (set (map key (entries ht)))" using d by (simp only: distinct_card)
  also have "\<dots> = card (dom (table_map ht))" by (simp add: dom_table_map)
  finally show ?thesis .
qed

lemma finite_dom_table_map: "finite (dom (table_map ht))"
  by (simp add: dom_table_map)

lemma ht_put_length:
  assumes "wf_table ht" "ht_put ht k v c m = Inr ht'"
  shows "length (entries ht') \<le> Suc (length (entries ht))"
proof -
  obtain h where h: "ht_put ht k v c m = Inr h" "wf_table h"
    "k \<in> dom (table_map ht) \<or> m \<longrightarrow> table_map h = (table_map ht)(k \<mapsto> v)"
    "k \<notin> dom (table_map ht) \<and> \<not> m \<longrightarrow> table_map h = table_map ht"
    using ht_put_wf[OF assms(1), of k v c m] by blast
  have "h = ht'" using h(1) assms(2) by simp
  then have wf': "wf_table ht'" and
    upd: "table_map ht' = (table_map ht)(k \<mapsto> v) \<or> table_map ht' = table_map ht"
    using h(2,3,4) by blast+
  from upd have "dom (table_map ht') \<subseteq> insert k (dom (table_map ht))" by auto
  then have "card (dom (table_map ht')) \<le> card (insert k (dom (table_map ht)))"
    using finite_dom_table_map by (intro card_mono) auto
  also have "\<dots> \<le> Suc (card (dom (table_map ht)))"
    using finite_dom_table_map by (simp add: card_insert_if)
  finally show ?thesis using entries_card[OF assms(1)] entries_card[OF wf'] by simp
qed

lemma ht_remove_length:
  assumes "wf_table ht" "ht_remove ht k = Inr (b, ht')"
  shows "length (entries ht') \<le> length (entries ht) \<and> size_ht ht' = size_ht ht"
proof -
  obtain h where h: "ht_remove ht k = Inr (k \<in> dom (table_map ht), h)" "wf_table h"
    "size_ht h = size_ht ht" "table_map h = (table_map ht)(k := None)"
    using ht_remove_wf[OF assms(1), of k] by blast
  have "h = ht'" using h(1) assms(2) by simp
  then have wf': "wf_table ht'" and upd: "table_map ht' = (table_map ht)(k := None)"
    and sz: "size_ht ht' = size_ht ht"
    using h(2,3,4) by simp_all
  from upd have "dom (table_map ht') \<subseteq> dom (table_map ht)" by auto
  then have "card (dom (table_map ht')) \<le> card (dom (table_map ht))"
    using finite_dom_table_map by (intro card_mono) auto
  then show ?thesis using entries_card[OF assms(1)] entries_card[OF wf'] sz by simp
qed

lemma grow_arith:
  fixes n n' s :: nat
  assumes "n' \<le> Suc n" "4 * n \<le> 3 * s + 4" "0 < s"
  shows "4 * n' \<le> 3 * (2 * s) + 4"
proof (cases "s = 1")
  case True
  then have "n \<le> 1" using assms(2) by simp
  then show ?thesis using assms(1) True by simp
next
  case False
  then have "2 \<le> s" using assms(3) by simp
  then show ?thesis using assms(1,2) by simp
qed

lemma keep_arith:
  fixes n n' s :: nat
  shows "n' \<le> Suc n \<Longrightarrow> 4 * n \<le> 3 * s \<Longrightarrow> 4 * n' \<le> 3 * s + 4"
  by simp

lemma ht_put_bounded:
  assumes wf: "wf_table ht" and lb: "load_bounded ht"
    and ok: "ht_load_factor ht > 0.75 \<longrightarrow> calloc_ok c (size_ht ht * 2) 8"
    and put: "ht_put ht k v c m = Inr ht'"
  shows "load_bounded ht' \<and>
         size_ht ht' = (if ht_load_factor ht > 0.75 then size_ht ht * 2 else size_ht ht)"
proof -
  have nz: "size_ht ht \<noteq> 0" using wf by (simp add: wf_table_def)
  obtain h where h: "ht_put ht k v c m = Inr h"
    "size_ht h = (if ht_load_factor ht > 0.75 \<and> calloc_ok c (size_ht ht * 2) 8
                  then size_ht ht * 2 else size_ht ht)"
    using ht_put_wf[OF wf, of k v c m] by blast
  have "h = ht'" using h(1) put by simp
  then have sz: "size_ht ht' = (if ht_load_factor ht > 0.75 then size_ht ht * 2 else size_ht ht)"
    using h(2) ok by simp
  have len: "length (entries ht') \<le> Suc (length (entries ht))"
    using ht_put_length[OF wf put] .
  have cnt: "unat (count_ht ht) = length (entries ht)" using bounded_count[OF wf lb] .
  have pos: "0 < unat (size_ht ht)" using nz by (simp add: unat_gt_0)
  have b: "4 * length (entries ht) \<le> 3 * unat (size_ht ht) + 4"
    using lb by (simp add: load_bounded_def)
  have "4 * length (entries ht') \<le> 3 * unat (size_ht ht') + 4"
  proof (cases "ht_load_factor ht > 0.75")
    case True
    then have "size_ht ht' = size_ht ht * 2" using sz by simp
    then have "unat (size_ht ht') = 2 * unat (size_ht ht)" using wf_double[OF wf] by simp
    then show ?thesis using grow_arith[OF len b pos] by simp
  next
    case False
    then have "\<not> 3 * unat (size_ht ht) < 4 * unat (count_ht ht)"
      using load_factor_gt[OF nz] by blast
    then have "4 * length (entries ht) \<le> 3 * unat (size_ht ht)"
      using cnt by simp
    moreover have "size_ht ht' = size_ht ht" using sz False by simp
    ultimately show ?thesis using keep_arith[OF len] by simp
  qed
  then show ?thesis using sz by (simp add: load_bounded_def)
qed

lemma reachable_grown_bounded: "reachable_grown ht \<Longrightarrow> load_bounded ht"
proof (induction rule: reachable_grown.induct)
  case (create sz m c ht)
  then show ?case using ht_create_wf[of sz m c ht] by (simp add: load_bounded_def)
next
  case (put ht c k v m ht')
  then show ?case
    using ht_put_bounded[OF reachable_wf[OF reachable_grown_reachable[OF put.hyps(1)]] put.IH]
    by blast
next
  case (remove ht k b ht')
  have wf: "wf_table ht" using reachable_wf[OF reachable_grown_reachable[OF remove.hyps(1)]] .
  show ?case using ht_remove_length[OF wf remove.hyps(2)] remove.IH
    by (simp add: load_bounded_def)
next
  case (clear ht ht')
  have wf: "wf_table ht" using reachable_wf[OF reachable_grown_reachable[OF clear.hyps(1)]] .
  then have "ht' = ht\<lparr>buckets := replicate (unat (size_ht ht)) [], count_ht := 0\<rparr>"
    using ht_clear_wf[OF wf] clear.hyps(2) by simp
  then show ?case by (simp add: load_bounded_def entries_def)
qed

lemma load_factor_le:
  assumes "wf_table ht" "load_bounded ht"
  shows "ht_load_factor ht \<le> 0.75 + 1 / real (unat (size_ht ht))"
proof -
  have nz: "size_ht ht \<noteq> 0" using assms(1) by (simp add: wf_table_def)
  then have "0 < unat (size_ht ht)" by (simp add: unat_gt_0)
  then have pos: "0 < real (unat (size_ht ht))" by (simp only: of_nat_0_less_iff)
  have "4 * unat (count_ht ht) \<le> 3 * unat (size_ht ht) + 4"
    using assms by (simp add: bounded_count load_bounded_def)
  then have "real (4 * unat (count_ht ht)) \<le> real (3 * unat (size_ht ht) + 4)"
    by (simp only: of_nat_le_iff)
  then have "4 * real (unat (count_ht ht)) \<le> 3 * real (unat (size_ht ht)) + 4" by simp
  then show ?thesis unfolding ht_load_factor_def using pos by (simp add: field_simps)
qed

section \<open>Facts for the laws below\<close>

lemma reachable_put_all:
  "reachable ht0 \<Longrightarrow> ht_put_all ht0 calls = Inr ht \<Longrightarrow> reachable ht"
proof (induction calls arbitrary: ht0)
  case Nil
  then show ?case by simp
next
  case (Cons call calls)
  obtain k v c m where call: "call = (k, v, c, m)" by (cases call) auto
  obtain ht1 where ht1: "ht_put ht0 k v c m = Inr ht1" "ht_put_all ht1 calls = Inr ht"
    using Cons.prems(2) call by (auto split: sum.splits)
  have "reachable ht1" using reachable.put[OF Cons.prems(1) ht1(1)] .
  then show ?case using Cons.IH ht1(2) by blast
qed

lemma ht_get_found:
  assumes "wf_table ht" "table_map ht k = Some v"
  shows "ht_get ht k b = Inr (True, if b then Some v else None)"
  using ht_get_table_map[OF assms(1), of k b] assms(2) by simp

lemma ht_get_missing:
  assumes "wf_table ht" "table_map ht k = None"
  shows "ht_get ht k b = Inr (False, None)"
  using ht_get_table_map[OF assms(1), of k b] assms(2) by simp

lemma ht_get_cong:
  assumes "wf_table ht" "wf_table ht'" "table_map ht' k = table_map ht k"
  shows "ht_get ht' k b = ht_get ht k b"
  using ht_get_table_map[OF assms(1), of k b] ht_get_table_map[OF assms(2), of k b] assms(3)
  by simp

lemma filter_key_le_1:
  "distinct (map key es) \<Longrightarrow> length (filter (\<lambda>e. key e = k) es) \<le> 1"
proof (induction es)
  case Nil
  then show ?case by simp
next
  case (Cons e es)
  show ?case
  proof (cases "key e = k")
    case True
    then have "k \<notin> key ` set es" using Cons.prems by auto
    then have "filter (\<lambda>e. key e = k) es = []" by (auto simp: filter_empty_conv)
    then show ?thesis using True by simp
  next
    case False
    then show ?thesis using Cons by simp
  qed
qed

lemma filter_key_pos:
  "k \<in> key ` set es \<Longrightarrow> 0 < length (filter (\<lambda>e. key e = k) es)"
  by (induction es) auto

lemma wf_count_exact:
  assumes "wf_table ht" "length (entries ht) < 2 ^ 64"
  shows "unat (count_ht ht) = length (entries ht)"
proof -
  have "count_ht ht = of_nat (length (entries ht))" using assms(1) by (simp add: wf_table_def)
  then show ?thesis using assms(2) by (simp add: unat_of_nat)
qed

lemma ht_get_value_table_map:
  assumes "wf_table ht"
  shows "ht_get_value ht k = Inr (case table_map ht k of None \<Rightarrow> - 1 | Some v \<Rightarrow> v)"
proof -
  obtain j where j: "hash k (size_ht ht) = Inr j" "unat j < length (buckets ht)"
    using wf_hash[OF assms] by blast
  have "chain_find (buckets ht ! unat j) k = table_map ht k"
    unfolding table_map_def entries_def
    using assms j by (intro chain_find_bucket) (auto simp: wf_table_def entries_def)
  then show ?thesis using j by (simp add: ht_get_value_def split: option.splits)
qed

section \<open>The hash function stays in range\<close>

text \<open>
  C8. For every key and every bucket count that is not zero, \<^verbatim>\<open>hash\<close> returns an index
  below the bucket count. It reads nothing but its two arguments, so the same key and
  bucket count always give the same index.
\<close>

theorem hash_in_range:
  assumes "sz \<noteq> 0"
  shows "\<exists>j. hash k sz = Inr j \<and> unat j < unat sz \<and>
           (\<forall>k' sz'. k' = k \<and> sz' = sz \<longrightarrow> hash k' sz' = Inr j)"
  using hash_lt[OF assms, of k] by auto

theorem hash_in_range_witness:
  "(8 :: size_t) \<noteq> 0 \<and> hash 1001 8 = Inr 4 \<and> unat (4 :: unsigned_int) < unat (8 :: size_t)"
  using hash_in_range[of 8 1001] by (simp add: hash_def)

section \<open>Insertion, then lookup\<close>

text \<open>
  C1. After any sequence of \<^verbatim>\<open>ht_put\<close> calls with pairwise distinct keys on a table
  created with a bucket count that is not zero, \<^verbatim>\<open>ht_get\<close> returns true and writes the
  value for every inserted key, and returns false for every key never inserted. The
  inserted keys are those whose call got its node: a call whose \<^verbatim>\<open>malloc\<close> fails
  returns without inserting. The resizes on the way may succeed or fail.
\<close>

theorem put_then_get:
  assumes "sz \<noteq> 0" and "ht_create sz m0 c0 = Some ht0"
    and "distinct (map fst calls)"
  shows "\<exists>ht. ht_put_all ht0 calls = Inr ht \<and>
           (\<forall>(k, v, c, m) \<in> set calls.
              ht_get ht k True = (if m then Inr (True, Some v) else Inr (False, None))) \<and>
           (\<forall>k. k \<notin> fst ` set calls \<longrightarrow> ht_get ht k True = Inr (False, None))"
proof -
  have wf0: "wf_table ht0" and e0: "entries ht0 = []"
    using ht_create_wf[OF assms(2,1)] by simp_all
  have empty: "table_map ht0 = Map.empty" using table_map_empty[OF e0] .
  then have fresh: "\<forall>k \<in> fst ` set calls. table_map ht0 k = None" by simp
  obtain ht where ht: "ht_put_all ht0 calls = Inr ht" "wf_table ht"
    "\<forall>(k, v, c, m) \<in> set calls. table_map ht k = (if m then Some v else None)"
    "\<forall>k. k \<notin> fst ` set calls \<longrightarrow> table_map ht k = table_map ht0 k"
    using ht_put_all_ok[OF wf0 assms(3) fresh] by blast
  have "ht_get ht k True = (if m then Inr (True, Some v) else Inr (False, None))"
    if "(k, v, c, m) \<in> set calls" for k v c m
  proof -
    have "table_map ht k = (if m then Some v else None)" using ht(3) that by auto
    then show ?thesis
      using ht_get_found[OF ht(2), of k v True] ht_get_missing[OF ht(2), of k True]
      by (cases m) simp_all
  qed
  then have ins: "\<forall>(k, v, c, m) \<in> set calls.
      ht_get ht k True = (if m then Inr (True, Some v) else Inr (False, None))"
    by auto
  have "\<forall>k. k \<notin> fst ` set calls \<longrightarrow> ht_get ht k True = Inr (False, None)"
    using ht(4) ht_get_missing[OF ht(2), of _ True] empty by auto
  then show ?thesis using ht(1) ins by blast
qed

theorem put_then_get_witness:
  "(4 :: size_t) \<noteq> 0 \<and>
   ht_create 4 True True = Some \<lparr>buckets = [[], [], [], []], size_ht = 4, count_ht = 0\<rparr> \<and>
   distinct (map fst [(1 :: affinity_key_t, 10 :: affinity_value_t, True, True),
                      (2, 20, True, True), (3, 30, True, True), (4, 40, True, True),
                      (5, 50, True, True), (6, 60, True, False)]) \<and>
   (\<exists>ht. ht_put_all \<lparr>buckets = [[], [], [], []], size_ht = 4, count_ht = 0\<rparr>
            [(1, 10, True, True), (2, 20, True, True), (3, 30, True, True),
             (4, 40, True, True), (5, 50, True, True), (6, 60, True, False)] = Inr ht \<and>
         size_ht ht = 8 \<and>
         ht_get ht 1 True = Inr (True, Some 10) \<and>
         ht_get ht 5 True = Inr (True, Some 50) \<and>
         ht_get ht 6 True = Inr (False, None) \<and>
         ht_get ht 9 True = Inr (False, None))"
proof -
  let ?T0 = "\<lparr>buckets = [[], [], [], []], size_ht = 4, count_ht = 0\<rparr>"
  let ?calls = "[(1 :: affinity_key_t, 10 :: affinity_value_t, True, True),
                 (2, 20, True, True), (3, 30, True, True), (4, 40, True, True),
                 (5, 50, True, True), (6, 60, True, False)]"
  have h1: "(4 :: size_t) \<noteq> 0" by simp
  have h2: "ht_create 4 True True = Some ?T0" by code_simp
  have h3: "distinct (map fst ?calls)" by simp
  obtain ht where ht: "ht_put_all ?T0 ?calls = Inr ht"
    "\<forall>(k, v, c, m) \<in> set ?calls.
       ht_get ht k True = (if m then Inr (True, Some v) else Inr (False, None))"
    "\<forall>k. k \<notin> fst ` set ?calls \<longrightarrow> ht_get ht k True = Inr (False, None)"
    using put_then_get[OF h1 h2 h3] by blast
  have ev: "ht_put_all ?T0 ?calls =
          Inr \<lparr>buckets = [[], [], [], [], [\<lparr>key = 1, value_e = 10\<rparr>],
                          [\<lparr>key = 5, value_e = 50\<rparr>, \<lparr>key = 4, value_e = 40\<rparr>],
                          [\<lparr>key = 3, value_e = 30\<rparr>], [\<lparr>key = 2, value_e = 20\<rparr>]],
               size_ht = 8, count_ht = 5\<rparr>"
    by code_simp
  from ht(1)[unfolded ev] have "size_ht ht = 8" by auto
  moreover have "ht_get ht 1 True = Inr (True, Some 10)" using ht(2) by simp
  moreover have "ht_get ht 5 True = Inr (True, Some 50)" using ht(2) by simp
  moreover have "ht_get ht 6 True = Inr (False, None)" using ht(2) by simp
  moreover have "ht_get ht 9 True = Inr (False, None)" using ht(3) by simp
  ultimately show ?thesis using h1 h2 h3 ht(1) by blast
qed

section \<open>The load factor when \<^verbatim>\<open>ht_put\<close> returns\<close>

text \<open>
  C2, as stated, fails: \<^verbatim>\<open>ht_put\<close> compares the load factor on entry, before the
  insertion, with 0.75. A table of 4 buckets holding 3 entries has load factor 0.75,
  is not resized, and returns from the next insertion with 4 buckets and load factor 1.
  So does a new table of 1 bucket (where every key hashes to bucket 0) from its first
  insertion.
\<close>

theorem put_load_factor_counterexample:
  "ht_create 4 True True = Some \<lparr>buckets = [[], [], [], []], size_ht = 4, count_ht = 0\<rparr> \<and>
   ht_put_all \<lparr>buckets = [[], [], [], []], size_ht = 4, count_ht = 0\<rparr>
     [(1, 10, True, True), (2, 20, True, True), (3, 30, True, True)] =
     Inr \<lparr>buckets = [[\<lparr>key = 1, value_e = 10\<rparr>], [], [\<lparr>key = 3, value_e = 30\<rparr>],
                     [\<lparr>key = 2, value_e = 20\<rparr>]],
          size_ht = 4, count_ht = 3\<rparr> \<and>
   ht_put \<lparr>buckets = [[\<lparr>key = 1, value_e = 10\<rparr>], [], [\<lparr>key = 3, value_e = 30\<rparr>],
                     [\<lparr>key = 2, value_e = 20\<rparr>]],
          size_ht = 4, count_ht = 3\<rparr> 4 40 True True =
     Inr \<lparr>buckets = [[\<lparr>key = 1, value_e = 10\<rparr>], [\<lparr>key = 4, value_e = 40\<rparr>],
                     [\<lparr>key = 3, value_e = 30\<rparr>], [\<lparr>key = 2, value_e = 20\<rparr>]],
          size_ht = 4, count_ht = 4\<rparr> \<and>
   ht_load_factor \<lparr>buckets = [[\<lparr>key = 1, value_e = 10\<rparr>], [\<lparr>key = 4, value_e = 40\<rparr>],
                     [\<lparr>key = 3, value_e = 30\<rparr>], [\<lparr>key = 2, value_e = 20\<rparr>]],
          size_ht = 4, count_ht = 4\<rparr> = 1 \<and>
   \<not> ht_load_factor \<lparr>buckets = [[\<lparr>key = 1, value_e = 10\<rparr>], [\<lparr>key = 4, value_e = 40\<rparr>],
                     [\<lparr>key = 3, value_e = 30\<rparr>], [\<lparr>key = 2, value_e = 20\<rparr>]],
          size_ht = 4, count_ht = 4\<rparr> \<le> 0.75 \<and>
   ht_create 1 True True = Some \<lparr>buckets = [[]], size_ht = 1, count_ht = 0\<rparr> \<and>
   ht_put \<lparr>buckets = [[]], size_ht = 1, count_ht = 0\<rparr> 1 10 True True =
     Inr \<lparr>buckets = [[\<lparr>key = 1, value_e = 10\<rparr>]], size_ht = 1, count_ht = 1\<rparr> \<and>
   \<not> ht_load_factor \<lparr>buckets = [[\<lparr>key = 1, value_e = 10\<rparr>]], size_ht = 1, count_ht = 1\<rparr>
        \<le> 0.75"
proof -
  have "ht_create 1 True True = Some \<lparr>buckets = [[]], size_ht = 1, count_ht = 0\<rparr>"
    by code_simp
  moreover have "ht_put \<lparr>buckets = [[]], size_ht = 1, count_ht = 0\<rparr> 1 10 True True =
     Inr \<lparr>buckets = [[\<lparr>key = 1, value_e = 10\<rparr>]], size_ht = 1, count_ht = 1\<rparr>"
    by code_simp
  moreover have "\<not> ht_load_factor
      \<lparr>buckets = [[\<lparr>key = 1, value_e = 10\<rparr>]], size_ht = 1, count_ht = 1\<rparr> \<le> 0.75"
    by (simp add: ht_load_factor_def)
  moreover
  have "ht_create 4 True True = Some \<lparr>buckets = [[], [], [], []], size_ht = 4, count_ht = 0\<rparr>"
    by code_simp
  moreover have "ht_put_all \<lparr>buckets = [[], [], [], []], size_ht = 4, count_ht = 0\<rparr>
     [(1, 10, True, True), (2, 20, True, True), (3, 30, True, True)] =
     Inr \<lparr>buckets = [[\<lparr>key = 1, value_e = 10\<rparr>], [], [\<lparr>key = 3, value_e = 30\<rparr>],
                     [\<lparr>key = 2, value_e = 20\<rparr>]],
          size_ht = 4, count_ht = 3\<rparr>"
    by code_simp
  moreover have "ht_put \<lparr>buckets = [[\<lparr>key = 1, value_e = 10\<rparr>], [], [\<lparr>key = 3, value_e = 30\<rparr>],
                     [\<lparr>key = 2, value_e = 20\<rparr>]],
          size_ht = 4, count_ht = 3\<rparr> 4 40 True True =
     Inr \<lparr>buckets = [[\<lparr>key = 1, value_e = 10\<rparr>], [\<lparr>key = 4, value_e = 40\<rparr>],
                     [\<lparr>key = 3, value_e = 30\<rparr>], [\<lparr>key = 2, value_e = 20\<rparr>]],
          size_ht = 4, count_ht = 4\<rparr>"
    by code_simp
  moreover have "ht_load_factor \<lparr>buckets = [[\<lparr>key = 1, value_e = 10\<rparr>], [\<lparr>key = 4, value_e = 40\<rparr>],
                     [\<lparr>key = 3, value_e = 30\<rparr>], [\<lparr>key = 2, value_e = 20\<rparr>]],
          size_ht = 4, count_ht = 4\<rparr> = 1"
    by (simp add: ht_load_factor_def)
  ultimately show ?thesis by simp
qed

text \<open>
  C2, amended. For every table reached from \<^verbatim>\<open>ht_create\<close> (bucket count not zero) by
  \<^verbatim>\<open>ht_put\<close>, \<^verbatim>\<open>ht_remove\<close> and \<^verbatim>\<open>ht_clear\<close> calls whose resizes got their bucket arrays,
  and every \<^verbatim>\<open>ht_put\<close> call whose resize, if attempted, gets its bucket array: the load
  factor is at most \<open>0.75 + 1 / size\<close> when \<^verbatim>\<open>ht_put\<close> returns. The table is resized to
  double its bucket count, before the insertion proper, exactly when the load factor
  on entry exceeds 0.75.
\<close>

theorem put_load_factor:
  assumes "reachable_grown ht"
    and "ht_load_factor ht > 0.75 \<longrightarrow> calloc_ok c (size_ht ht * 2) 8"
  shows "\<exists>ht'. ht_put ht k v c m = Inr ht' \<and>
           ht_load_factor ht' \<le> 0.75 + 1 / real (unat (size_ht ht')) \<and>
           unat (size_ht ht') =
             (if ht_load_factor ht > 0.75 then 2 * unat (size_ht ht) else unat (size_ht ht))"
proof -
  have wf: "wf_table ht" using reachable_wf[OF reachable_grown_reachable[OF assms(1)]] .
  have lb: "load_bounded ht" using reachable_grown_bounded[OF assms(1)] .
  obtain ht' where ht': "ht_put ht k v c m = Inr ht'" "wf_table ht'"
    using ht_put_wf[OF wf, of k v c m] by blast
  have b: "load_bounded ht'"
    and sz: "size_ht ht' = (if ht_load_factor ht > 0.75 then size_ht ht * 2 else size_ht ht)"
    using ht_put_bounded[OF wf lb assms(2) ht'(1)] by simp_all
  have "unat (size_ht ht') =
          (if ht_load_factor ht > 0.75 then 2 * unat (size_ht ht) else unat (size_ht ht))"
    using sz wf_double[OF wf] by simp
  then show ?thesis using ht'(1) load_factor_le[OF ht'(2) b] by blast
qed

theorem put_load_factor_witness:
  "reachable_grown \<lparr>buckets = [[\<lparr>key = 1, value_e = 10\<rparr>]], size_ht = 1, count_ht = 1\<rparr> \<and>
   ht_load_factor \<lparr>buckets = [[\<lparr>key = 1, value_e = 10\<rparr>]], size_ht = 1, count_ht = 1\<rparr> > 0.75 \<and>
   calloc_ok True (1 * 2) 8 \<and>
   (\<exists>ht'. ht_put \<lparr>buckets = [[\<lparr>key = 1, value_e = 10\<rparr>]], size_ht = 1, count_ht = 1\<rparr>
             2 20 True True = Inr ht' \<and>
          ht_load_factor ht' \<le> 0.75 + 1 / real (unat (size_ht ht')) \<and>
          unat (size_ht ht') = 2)"
proof -
  let ?T0 = "\<lparr>buckets = [[]], size_ht = 1, count_ht = 0\<rparr>"
  let ?T1 = "\<lparr>buckets = [[\<lparr>key = 1, value_e = 10\<rparr>]], size_ht = 1, count_ht = 1\<rparr>"
  have c0: "ht_create 1 True True = Some ?T0" by code_simp
  have r0: "reachable_grown ?T0" using reachable_grown.create[OF _ c0] by simp
  have p1: "ht_put ?T0 1 10 True True = Inr ?T1" by code_simp
  have ok: "calloc_ok True (1 * 2) 8" by (simp add: calloc_ok_def)
  have r1: "reachable_grown ?T1"
    using reachable_grown.put[OF r0 _ p1] ok by simp
  have lf: "ht_load_factor ?T1 > 0.75" by (simp add: ht_load_factor_def)
  have ok': "ht_load_factor ?T1 > 0.75 \<longrightarrow> calloc_ok True (size_ht ?T1 * 2) 8"
    using ok by simp
  show ?thesis
    using put_load_factor[OF r1 ok', of 2 20 True] r1 lf ok by simp
qed

section \<open>A resize doubles the bucket count and keeps the content\<close>

text \<open>
  C3. When the resize to twice the bucket count gets its bucket array, the new bucket
  count is exactly twice the old one, \<^verbatim>\<open>count\<close> is unchanged, and \<^verbatim>\<open>ht_get\<close> answers
  for every key as before. An \<^verbatim>\<open>ht_put\<close> that finds the load factor above 0.75 then
  continues on the doubled table, and returns a table with twice the buckets in
  which every other key is found as before. The table is any reachable one, so this
  holds at every crossing of the threshold.
\<close>

theorem resize_doubles_and_keeps:
  assumes "reachable ht" and "calloc_ok c (size_ht ht * 2) 8"
  shows "\<exists>ht'. ht_resize ht (size_ht ht * 2) c = Inr ht' \<and>
           unat (size_ht ht') = 2 * unat (size_ht ht) \<and>
           length (buckets ht') = 2 * length (buckets ht) \<and>
           ht_size ht' = ht_size ht \<and>
           (\<forall>k b. ht_get ht' k b = ht_get ht k b) \<and>
           (ht_load_factor ht > 0.75 \<longrightarrow>
              (\<forall>k v m. ht_put ht k v c m = put_entry ht' k v m \<and>
                 (\<exists>ht''. ht_put ht k v c m = Inr ht'' \<and>
                    unat (size_ht ht'') = 2 * unat (size_ht ht) \<and>
                    (\<forall>k' b. k' \<noteq> k \<longrightarrow> ht_get ht'' k' b = ht_get ht k' b))))"
proof -
  have wf: "wf_table ht" using reachable_wf[OF assms(1)] .
  have dbl: "size_ht ht * 2 \<noteq> 0" "unat (size_ht ht * 2) = 2 * unat (size_ht ht)"
    using wf_double[OF wf] by simp_all
  obtain ht' where ht': "ht_resize ht (size_ht ht * 2) c = Inr ht'" "wf_table ht'"
    "size_ht ht' = size_ht ht * 2" "count_ht ht' = count_ht ht" "table_map ht' = table_map ht"
    using ht_resize_wf[OF wf dbl(1) assms(2)] by blast
  have sz: "unat (size_ht ht') = 2 * unat (size_ht ht)" using ht'(3) dbl(2) by simp
  have len: "length (buckets ht') = 2 * length (buckets ht)"
    using sz wf ht'(2) by (simp add: wf_table_def)
  have cnt: "ht_size ht' = ht_size ht" using ht'(4) by (simp add: ht_size_def)
  have get: "\<forall>k b. ht_get ht' k b = ht_get ht k b"
    using ht_get_cong[OF wf ht'(2)] ht'(5) by simp
  have put: "ht_put ht k v c m = put_entry ht' k v m \<and>
               (\<exists>ht''. ht_put ht k v c m = Inr ht'' \<and>
                  unat (size_ht ht'') = 2 * unat (size_ht ht) \<and>
                  (\<forall>k' b. k' \<noteq> k \<longrightarrow> ht_get ht'' k' b = ht_get ht k' b))"
    if lf: "ht_load_factor ht > 0.75" for k v m
  proof -
    have alt: "ht_put ht k v c m = put_entry ht' k v m"
      using lf ht'(1) by (simp add: ht_put_alt)
    obtain ht'' where ht'': "put_entry ht' k v m = Inr ht''" "wf_table ht''"
      "size_ht ht'' = size_ht ht'"
      "k \<in> dom (table_map ht') \<or> m \<longrightarrow> table_map ht'' = (table_map ht')(k \<mapsto> v)"
      "k \<notin> dom (table_map ht') \<and> \<not> m \<longrightarrow> ht'' = ht'"
      using put_entry_wf[OF ht'(2), of k v m] by blast
    have "table_map ht'' k' = table_map ht k'" if "k' \<noteq> k" for k'
      using ht''(4,5) ht'(5) that by (cases "k \<in> dom (table_map ht') \<or> m") auto
    then have "\<forall>k' b. k' \<noteq> k \<longrightarrow> ht_get ht'' k' b = ht_get ht k' b"
      using ht_get_cong[OF wf ht''(2)] by simp
    moreover have "unat (size_ht ht'') = 2 * unat (size_ht ht)" using ht''(3) sz by simp
    ultimately show ?thesis using alt ht''(1) by simp
  qed
  show ?thesis using ht'(1) sz len cnt get put by blast
qed

theorem resize_doubles_and_keeps_witness:
  "reachable \<lparr>buckets = [[\<lparr>key = 1, value_e = 10\<rparr>], [\<lparr>key = 4, value_e = 40\<rparr>],
                         [\<lparr>key = 3, value_e = 30\<rparr>], [\<lparr>key = 2, value_e = 20\<rparr>]],
              size_ht = 4, count_ht = 4\<rparr> \<and>
   calloc_ok True (4 * 2) 8 \<and>
   ht_resize \<lparr>buckets = [[\<lparr>key = 1, value_e = 10\<rparr>], [\<lparr>key = 4, value_e = 40\<rparr>],
                         [\<lparr>key = 3, value_e = 30\<rparr>], [\<lparr>key = 2, value_e = 20\<rparr>]],
              size_ht = 4, count_ht = 4\<rparr> (4 * 2) True =
     Inr \<lparr>buckets = [[], [], [], [], [\<lparr>key = 1, value_e = 10\<rparr>],
                     [\<lparr>key = 4, value_e = 40\<rparr>], [\<lparr>key = 3, value_e = 30\<rparr>],
                     [\<lparr>key = 2, value_e = 20\<rparr>]],
          size_ht = 8, count_ht = 4\<rparr> \<and>
   ht_get \<lparr>buckets = [[], [], [], [], [\<lparr>key = 1, value_e = 10\<rparr>],
                     [\<lparr>key = 4, value_e = 40\<rparr>], [\<lparr>key = 3, value_e = 30\<rparr>],
                     [\<lparr>key = 2, value_e = 20\<rparr>]],
          size_ht = 8, count_ht = 4\<rparr> 3 True = Inr (True, Some 30) \<and>
   (\<exists>ht''. ht_put \<lparr>buckets = [[\<lparr>key = 1, value_e = 10\<rparr>], [\<lparr>key = 4, value_e = 40\<rparr>],
                         [\<lparr>key = 3, value_e = 30\<rparr>], [\<lparr>key = 2, value_e = 20\<rparr>]],
              size_ht = 4, count_ht = 4\<rparr> 5 50 True True = Inr ht'' \<and>
            unat (size_ht ht'') = 8 \<and> ht_get ht'' 3 True = Inr (True, Some 30))"
proof -
  let ?T0 = "\<lparr>buckets = [[], [], [], []], size_ht = 4, count_ht = 0\<rparr>"
  let ?T4 = "\<lparr>buckets = [[\<lparr>key = 1, value_e = 10\<rparr>], [\<lparr>key = 4, value_e = 40\<rparr>],
                         [\<lparr>key = 3, value_e = 30\<rparr>], [\<lparr>key = 2, value_e = 20\<rparr>]],
              size_ht = 4, count_ht = 4\<rparr>"
  let ?T8 = "\<lparr>buckets = [[], [], [], [], [\<lparr>key = 1, value_e = 10\<rparr>],
                     [\<lparr>key = 4, value_e = 40\<rparr>], [\<lparr>key = 3, value_e = 30\<rparr>],
                     [\<lparr>key = 2, value_e = 20\<rparr>]],
          size_ht = 8, count_ht = 4\<rparr>"
  have c0: "ht_create 4 True True = Some ?T0" by code_simp
  have r0: "reachable ?T0" using reachable.create[OF _ c0] by simp
  have "ht_put_all ?T0 [(1, 10, True, True), (2, 20, True, True), (3, 30, True, True),
                        (4, 40, True, True)] = Inr ?T4"
    by code_simp
  then have r4: "reachable ?T4" using reachable_put_all[OF r0] by blast
  have ok: "calloc_ok True (size_ht ?T4 * 2) 8" by (simp add: calloc_ok_def)
  have rs: "ht_resize ?T4 (4 * 2) True = Inr ?T8" by code_simp
  have g3: "ht_get ?T4 3 True = Inr (True, Some 30)" by code_simp
  have lf: "ht_load_factor ?T4 > 0.75" by (simp add: ht_load_factor_def)
  obtain ht' where ht': "ht_resize ?T4 (size_ht ?T4 * 2) True = Inr ht'"
    "\<forall>k b. ht_get ht' k b = ht_get ?T4 k b"
    "ht_load_factor ?T4 > 0.75 \<longrightarrow>
       (\<forall>k v m. ht_put ?T4 k v True m = put_entry ht' k v m \<and>
          (\<exists>ht''. ht_put ?T4 k v True m = Inr ht'' \<and>
             unat (size_ht ht'') = 2 * unat (size_ht ?T4) \<and>
             (\<forall>k' b. k' \<noteq> k \<longrightarrow> ht_get ht'' k' b = ht_get ?T4 k' b)))"
    using resize_doubles_and_keeps[OF r4 ok] by blast
  have "ht' = ?T8" using ht'(1) rs by simp
  then have a: "ht_get ?T8 3 True = Inr (True, Some 30)" using ht'(2) g3 by simp
  obtain ht'' where ht'': "ht_put ?T4 5 50 True True = Inr ht''"
    "unat (size_ht ht'') = 2 * unat (size_ht ?T4)"
    "\<forall>k' b. k' \<noteq> 5 \<longrightarrow> ht_get ht'' k' b = ht_get ?T4 k' b"
    using ht'(3) lf by blast
  have b: "unat (size_ht ht'') = 8" using ht''(2) by simp
  have "ht_get ht'' 3 True = ht_get ?T4 3 True" using ht''(3) by simp
  then have c: "ht_get ht'' 3 True = Inr (True, Some 30)" using g3 by simp
  have ok': "calloc_ok True (4 * 2) 8" by (simp add: calloc_ok_def)
  show ?thesis using r4 ok' rs a ht''(1) b c by blast
qed

section \<open>Insertion is an upsert\<close>

text \<open>
  C4. In every reachable table at most one entry across all chains has a given key.
  After \<^verbatim>\<open>ht_put(k, v1)\<close> (which gets its node) and \<^verbatim>\<open>ht_put(k, v2)\<close>, \<^verbatim>\<open>ht_get(k)\<close>
  returns true and writes \<open>v2\<close>, the second call leaves \<^verbatim>\<open>ht_size\<close> as the first left
  it, and exactly one entry has the key.
\<close>

theorem put_upsert:
  assumes "reachable ht"
  shows "length (filter (\<lambda>e. key e = k') (concat (buckets ht))) \<le> 1 \<and>
         (\<exists>ht1 ht2. ht_put ht k v1 c1 True = Inr ht1 \<and> ht_put ht1 k v2 c2 m2 = Inr ht2 \<and>
            ht_get ht2 k True = Inr (True, Some v2) \<and>
            ht_size ht2 = ht_size ht1 \<and>
            length (filter (\<lambda>e. key e = k) (concat (buckets ht2))) = 1)"
proof -
  have wf: "wf_table ht" using reachable_wf[OF assms] .
  then have "distinct (map key (concat (buckets ht)))" by (simp add: wf_table_def entries_def)
  then have one: "length (filter (\<lambda>e. key e = k') (concat (buckets ht))) \<le> 1"
    by (rule filter_key_le_1)
  obtain ht1 where ht1: "ht_put ht k v1 c1 True = Inr ht1" "wf_table ht1"
    "table_map ht1 = (table_map ht)(k \<mapsto> v1)"
    using ht_put_wf[OF wf, of k v1 c1 True] by auto
  have kin: "k \<in> dom (table_map ht1)" using ht1(3) by simp
  obtain ht2 where ht2: "ht_put ht1 k v2 c2 m2 = Inr ht2" "wf_table ht2"
    "k \<in> dom (table_map ht1) \<or> m2 \<longrightarrow> table_map ht2 = (table_map ht1)(k \<mapsto> v2)"
    "count_ht ht2 =
       (if k \<in> dom (table_map ht1) \<or> \<not> m2 then count_ht ht1 else count_ht ht1 + 1)"
    using ht_put_wf[OF ht1(2), of k v2 c2 m2] by blast
  have tm: "table_map ht2 k = Some v2" using ht2(3) kin by simp
  then have get: "ht_get ht2 k True = Inr (True, Some v2)"
    using ht_get_found[OF ht2(2), of k v2 True] by simp
  have cnt: "ht_size ht2 = ht_size ht1" using ht2(4) kin by (simp add: ht_size_def)
  have "distinct (map key (concat (buckets ht2)))"
    using ht2(2) by (simp add: wf_table_def entries_def)
  then have "length (filter (\<lambda>e. key e = k) (concat (buckets ht2))) \<le> 1"
    by (rule filter_key_le_1)
  moreover have "k \<in> key ` set (concat (buckets ht2))"
    using tm dom_table_map[of ht2] by (auto simp: entries_def)
  then have "0 < length (filter (\<lambda>e. key e = k) (concat (buckets ht2)))"
    by (rule filter_key_pos)
  ultimately have "length (filter (\<lambda>e. key e = k) (concat (buckets ht2))) = 1" by linarith
  then show ?thesis using one ht1(1) ht2(1) get cnt by blast
qed

theorem put_upsert_witness:
  "reachable \<lparr>buckets = [[], [], [], []], size_ht = 4, count_ht = 0\<rparr> \<and>
   ht_put \<lparr>buckets = [[], [], [], []], size_ht = 4, count_ht = 0\<rparr> 7 1 True True =
     Inr \<lparr>buckets = [[], [\<lparr>key = 7, value_e = 1\<rparr>], [], []], size_ht = 4, count_ht = 1\<rparr> \<and>
   ht_put \<lparr>buckets = [[], [\<lparr>key = 7, value_e = 1\<rparr>], [], []], size_ht = 4, count_ht = 1\<rparr>
     7 2 True False =
     Inr \<lparr>buckets = [[], [\<lparr>key = 7, value_e = 2\<rparr>], [], []], size_ht = 4, count_ht = 1\<rparr> \<and>
   ht_get \<lparr>buckets = [[], [\<lparr>key = 7, value_e = 2\<rparr>], [], []], size_ht = 4, count_ht = 1\<rparr>
     7 True = Inr (True, Some 2) \<and>
   ht_size \<lparr>buckets = [[], [\<lparr>key = 7, value_e = 2\<rparr>], [], []], size_ht = 4, count_ht = 1\<rparr> =
     ht_size \<lparr>buckets = [[], [\<lparr>key = 7, value_e = 1\<rparr>], [], []], size_ht = 4, count_ht = 1\<rparr>"
proof -
  let ?T0 = "\<lparr>buckets = [[], [], [], []], size_ht = 4, count_ht = 0\<rparr>"
  let ?T1 = "\<lparr>buckets = [[], [\<lparr>key = 7, value_e = 1\<rparr>], [], []], size_ht = 4, count_ht = 1\<rparr>"
  let ?T2 = "\<lparr>buckets = [[], [\<lparr>key = 7, value_e = 2\<rparr>], [], []], size_ht = 4, count_ht = 1\<rparr>"
  have c0: "ht_create 4 True True = Some ?T0" by code_simp
  have r0: "reachable ?T0" using reachable.create[OF _ c0] by simp
  have p1: "ht_put ?T0 7 1 True True = Inr ?T1" by code_simp
  have p2: "ht_put ?T1 7 2 True False = Inr ?T2" by code_simp
  obtain ht1 ht2 where h: "ht_put ?T0 7 1 True True = Inr ht1"
    "ht_put ht1 7 2 True False = Inr ht2" "ht_get ht2 7 True = Inr (True, Some 2)"
    "ht_size ht2 = ht_size ht1"
    using put_upsert[OF r0, of 7 7 1 True 2 True False] by blast
  have "ht1 = ?T1" using h(1) p1 by simp
  moreover from this have "ht2 = ?T2" using h(2) p2 by simp
  ultimately show ?thesis using r0 p1 p2 h(3,4) by simp
qed

section \<open>Removal\<close>

text \<open>
  C5. After \<^verbatim>\<open>ht_put(k, v)\<close> (which gets its node), \<^verbatim>\<open>ht_remove(k)\<close> returns true;
  afterwards \<^verbatim>\<open>ht_get(k)\<close> returns false, \<^verbatim>\<open>ht_size\<close> is one less than before the removal
  (in \<^verbatim>\<open>size_t\<close> arithmetic, and as a number whenever the table holds fewer than
  \<open>2 ^ 64\<close> entries), and a second \<^verbatim>\<open>ht_remove(k)\<close> returns false. \<^verbatim>\<open>ht_remove\<close> of a
  key that is not in the table returns false and leaves the table as it is.
\<close>

theorem removal_law:
  assumes "reachable ht"
  shows "(\<exists>ht1 ht2. ht_put ht k v c True = Inr ht1 \<and> ht_remove ht1 k = Inr (True, ht2) \<and>
            ht_get ht2 k True = Inr (False, None) \<and>
            ht_size ht2 = ht_size ht1 - 1 \<and>
            (length (concat (buckets ht1)) < 2 ^ 64 \<longrightarrow>
               unat (ht_size ht2) + 1 = unat (ht_size ht1)) \<and>
            ht_remove ht2 k = Inr (False, ht2)) \<and>
         (k' \<notin> key ` set (concat (buckets ht)) \<longrightarrow>
            (\<exists>ht'. ht_remove ht k' = Inr (False, ht') \<and> ht' = ht \<and> ht_size ht' = ht_size ht))"
proof -
  have wf: "wf_table ht" using reachable_wf[OF assms] .
  obtain ht1 where ht1: "ht_put ht k v c True = Inr ht1" "wf_table ht1"
    "table_map ht1 = (table_map ht)(k \<mapsto> v)"
    using ht_put_wf[OF wf, of k v c True] by auto
  have kin: "k \<in> dom (table_map ht1)" using ht1(3) by simp
  obtain ht2 where ht2: "ht_remove ht1 k = Inr (k \<in> dom (table_map ht1), ht2)" "wf_table ht2"
    "table_map ht2 = (table_map ht1)(k := None)"
    "count_ht ht2 = (if k \<in> dom (table_map ht1) then count_ht ht1 - 1 else count_ht ht1)"
    using ht_remove_wf[OF ht1(2), of k] by blast
  have rem: "ht_remove ht1 k = Inr (True, ht2)" using ht2(1) kin by simp
  have none: "table_map ht2 k = None" using ht2(3) by simp
  have get: "ht_get ht2 k True = Inr (False, None)"
    using ht_get_missing[OF ht2(2) none] .
  have cnt: "ht_size ht2 = ht_size ht1 - 1" using ht2(4) kin by (simp add: ht_size_def)
  have exact: "unat (ht_size ht2) + 1 = unat (ht_size ht1)"
    if small: "length (concat (buckets ht1)) < 2 ^ 64"
  proof -
    have n1: "unat (count_ht ht1) = length (entries ht1)"
      using wf_count_exact[OF ht1(2)] small by (simp add: entries_def)
    have "0 < card (dom (table_map ht1))"
      using kin finite_dom_table_map[of ht1] by (metis card_gt_0_iff empty_iff)
    then have "0 < length (entries ht1)" unfolding entries_card[OF ht1(2)] .
    then have "count_ht ht1 \<noteq> 0" using n1 by auto
    then have "unat (count_ht ht1 - 1) = unat (count_ht ht1) - 1" by (rule unat_minus_one)
    then show ?thesis using cnt n1 \<open>0 < length (entries ht1)\<close> by (simp add: ht_size_def)
  qed
  obtain ht3 where ht3: "ht_remove ht2 k = Inr (k \<in> dom (table_map ht2), ht3)"
    "k \<notin> dom (table_map ht2) \<longrightarrow> ht3 = ht2"
    using ht_remove_wf[OF ht2(2), of k] by blast
  have "k \<notin> dom (table_map ht2)" using none by (simp add: dom_def)
  then have again: "ht_remove ht2 k = Inr (False, ht2)" using ht3 by simp
  have absent: "ht_remove ht k' = Inr (False, ht)"
    if "k' \<notin> key ` set (concat (buckets ht))"
  proof -
    have notin: "k' \<notin> dom (table_map ht)" using that by (simp add: dom_table_map entries_def)
    obtain h where h: "ht_remove ht k' = Inr (k' \<in> dom (table_map ht), h)"
      "k' \<notin> dom (table_map ht) \<longrightarrow> h = ht"
      using ht_remove_wf[OF wf, of k'] by blast
    then show ?thesis using notin by simp
  qed
  show ?thesis using ht1(1) rem get cnt exact again absent by blast
qed

theorem removal_law_witness:
  "reachable \<lparr>buckets = [[], [], [], []], size_ht = 4, count_ht = 0\<rparr> \<and>
   ht_put \<lparr>buckets = [[], [], [], []], size_ht = 4, count_ht = 0\<rparr> 7 1 True True =
     Inr \<lparr>buckets = [[], [\<lparr>key = 7, value_e = 1\<rparr>], [], []], size_ht = 4, count_ht = 1\<rparr> \<and>
   ht_remove \<lparr>buckets = [[], [\<lparr>key = 7, value_e = 1\<rparr>], [], []], size_ht = 4, count_ht = 1\<rparr> 7 =
     Inr (True, \<lparr>buckets = [[], [], [], []], size_ht = 4, count_ht = 0\<rparr>) \<and>
   ht_get \<lparr>buckets = [[], [], [], []], size_ht = 4, count_ht = 0\<rparr> 7 True = Inr (False, None) \<and>
   unat (ht_size \<lparr>buckets = [[], [], [], []], size_ht = 4, count_ht = 0\<rparr>) + 1 =
     unat (ht_size \<lparr>buckets = [[], [\<lparr>key = 7, value_e = 1\<rparr>], [], []],
                    size_ht = 4, count_ht = 1\<rparr>) \<and>
   ht_remove \<lparr>buckets = [[], [], [], []], size_ht = 4, count_ht = 0\<rparr> 7 =
     Inr (False, \<lparr>buckets = [[], [], [], []], size_ht = 4, count_ht = 0\<rparr>) \<and>
   9 \<notin> key ` set (concat (buckets \<lparr>buckets = [[], [], [], []], size_ht = 4, count_ht = 0\<rparr>)) \<and>
   ht_remove \<lparr>buckets = [[], [], [], []], size_ht = 4, count_ht = 0\<rparr> 9 =
     Inr (False, \<lparr>buckets = [[], [], [], []], size_ht = 4, count_ht = 0\<rparr>)"
proof -
  let ?T0 = "\<lparr>buckets = [[], [], [], []], size_ht = 4, count_ht = 0\<rparr>"
  let ?T1 = "\<lparr>buckets = [[], [\<lparr>key = 7, value_e = 1\<rparr>], [], []], size_ht = 4, count_ht = 1\<rparr>"
  have c0: "ht_create 4 True True = Some ?T0" by code_simp
  have r0: "reachable ?T0" using reachable.create[OF _ c0] by simp
  have p1: "ht_put ?T0 7 1 True True = Inr ?T1" by code_simp
  have rm: "ht_remove ?T1 7 = Inr (True, ?T0)" by code_simp
  obtain ht1 ht2 where h: "ht_put ?T0 7 1 True True = Inr ht1"
    "ht_remove ht1 7 = Inr (True, ht2)" "ht_get ht2 7 True = Inr (False, None)"
    "length (concat (buckets ht1)) < 2 ^ 64 \<longrightarrow> unat (ht_size ht2) + 1 = unat (ht_size ht1)"
    "ht_remove ht2 7 = Inr (False, ht2)"
    "9 \<notin> key ` set (concat (buckets ?T0)) \<longrightarrow>
       (\<exists>ht'. ht_remove ?T0 9 = Inr (False, ht') \<and> ht' = ?T0 \<and> ht_size ht' = ht_size ?T0)"
    using removal_law[OF r0, of 7 1 True 9] by blast
  have n9: "9 \<notin> key ` set (concat (buckets ?T0))" by simp
  then have r9: "ht_remove ?T0 9 = Inr (False, ?T0)" using h(6) by blast
  have e1: "ht1 = ?T1" using h(1) p1 by simp
  then have e2: "ht2 = ?T0" using h(2) rm by simp
  have "length (concat (buckets ?T1)) < 2 ^ 64" by simp
  then have "unat (ht_size ?T0) + 1 = unat (ht_size ?T1)" using h(4) e1 e2 by blast
  then show ?thesis using r0 p1 rm h(3,5) e2 n9 r9 by simp
qed

section \<open>Clearing\<close>

text \<open>
  C6. \<^verbatim>\<open>ht_clear\<close> leaves \<^verbatim>\<open>ht_size\<close> at 0 and every bucket empty, so that \<^verbatim>\<open>ht_get\<close>
  returns false for every key, and leaves the bucket count and the length of the
  bucket array as they were.
\<close>

theorem clear_law:
  assumes "reachable ht"
  shows "\<exists>ht'. ht_clear (Some ht) = Inr (Some ht') \<and>
           ht_size ht' = 0 \<and>
           list_all (\<lambda>chain. chain = []) (buckets ht') \<and>
           (\<forall>k b. ht_get ht' k b = Inr (False, None)) \<and>
           size_ht ht' = size_ht ht \<and>
           length (buckets ht') = length (buckets ht)"
proof -
  have wf: "wf_table ht" using reachable_wf[OF assms] .
  let ?ht' = "ht\<lparr>buckets := replicate (unat (size_ht ht)) [], count_ht := 0\<rparr>"
  have res: "ht_clear (Some ht) = Inr (Some ?ht')" using ht_clear_wf[OF wf] .
  have wf': "wf_table ?ht'" using wf_cleared[OF wf] .
  have "entries ?ht' = []" by (simp add: entries_def)
  then have "table_map ?ht' = Map.empty" by (rule table_map_empty)
  then have "\<forall>k b. ht_get ?ht' k b = Inr (False, None)"
    using ht_get_missing[OF wf'] by simp
  moreover have "length (buckets ?ht') = length (buckets ht)"
    using wf by (simp add: wf_table_def)
  moreover have "list_all (\<lambda>chain. chain = []) (buckets ?ht')" by (simp add: list_all_iff)
  ultimately show ?thesis using res by (simp add: ht_size_def)
qed

theorem clear_law_witness:
  "reachable \<lparr>buckets = [[\<lparr>key = 1, value_e = 10\<rparr>], [\<lparr>key = 4, value_e = 40\<rparr>],
                         [\<lparr>key = 3, value_e = 30\<rparr>], [\<lparr>key = 2, value_e = 20\<rparr>]],
              size_ht = 4, count_ht = 4\<rparr> \<and>
   ht_get \<lparr>buckets = [[\<lparr>key = 1, value_e = 10\<rparr>], [\<lparr>key = 4, value_e = 40\<rparr>],
                      [\<lparr>key = 3, value_e = 30\<rparr>], [\<lparr>key = 2, value_e = 20\<rparr>]],
           size_ht = 4, count_ht = 4\<rparr> 3 True = Inr (True, Some 30) \<and>
   ht_clear (Some \<lparr>buckets = [[\<lparr>key = 1, value_e = 10\<rparr>], [\<lparr>key = 4, value_e = 40\<rparr>],
                         [\<lparr>key = 3, value_e = 30\<rparr>], [\<lparr>key = 2, value_e = 20\<rparr>]],
              size_ht = 4, count_ht = 4\<rparr>) =
     Inr (Some \<lparr>buckets = [[], [], [], []], size_ht = 4, count_ht = 0\<rparr>) \<and>
   ht_size \<lparr>buckets = [[], [], [], []], size_ht = 4, count_ht = 0\<rparr> = 0 \<and>
   ht_get \<lparr>buckets = [[], [], [], []], size_ht = 4, count_ht = 0\<rparr> 3 True = Inr (False, None)"
proof -
  let ?T0 = "\<lparr>buckets = [[], [], [], []], size_ht = 4, count_ht = 0\<rparr>"
  let ?T4 = "\<lparr>buckets = [[\<lparr>key = 1, value_e = 10\<rparr>], [\<lparr>key = 4, value_e = 40\<rparr>],
                         [\<lparr>key = 3, value_e = 30\<rparr>], [\<lparr>key = 2, value_e = 20\<rparr>]],
              size_ht = 4, count_ht = 4\<rparr>"
  have c0: "ht_create 4 True True = Some ?T0" by code_simp
  have r0: "reachable ?T0" using reachable.create[OF _ c0] by simp
  have "ht_put_all ?T0 [(1, 10, True, True), (2, 20, True, True), (3, 30, True, True),
                        (4, 40, True, True)] = Inr ?T4"
    by code_simp
  then have r4: "reachable ?T4" using reachable_put_all[OF r0] by blast
  have g: "ht_get ?T4 3 True = Inr (True, Some 30)" by code_simp
  have cl: "ht_clear (Some ?T4) = Inr (Some ?T0)" by code_simp
  obtain ht' where h: "ht_clear (Some ?T4) = Inr (Some ht')" "ht_size ht' = 0"
    "\<forall>k b. ht_get ht' k b = Inr (False, None)"
    using clear_law[OF r4] by blast
  have "ht' = ?T0" using h(1) cl by simp
  then show ?thesis using r4 g cl h(2,3) by simp
qed

section \<open>A resize that cannot allocate\<close>

text \<open>
  C7. When \<^verbatim>\<open>ht_put\<close> finds the load factor above 0.75 and the new bucket array cannot
  be allocated, \<^verbatim>\<open>ht_resize\<close> returns the table as it was (bucket array, bucket count,
  \<^verbatim>\<open>count\<close> and entries), and \<^verbatim>\<open>ht_put\<close> carries out the insertion proper on it: the
  bucket count stays, the key is found with the new value afterwards (when it was
  present, or the new node could be allocated), every other key is found as before,
  and the load factor stays above 0.75 unless \<^verbatim>\<open>count\<close> wraps around.
\<close>

theorem resize_failure:
  assumes "reachable ht" and "ht_load_factor ht > 0.75"
    and "\<not> calloc_ok c (size_ht ht * 2) 8"
  shows "ht_resize ht (size_ht ht * 2) c = Inr ht \<and>
         ht_put ht k v c m = put_entry ht k v m \<and>
         (\<exists>ht'. ht_put ht k v c m = Inr ht' \<and>
            size_ht ht' = size_ht ht \<and>
            length (buckets ht') = length (buckets ht) \<and>
            (m \<or> k \<in> key ` set (concat (buckets ht)) \<longrightarrow>
               ht_get ht' k True = Inr (True, Some v)) \<and>
            (\<forall>k' b. k' \<noteq> k \<longrightarrow> ht_get ht' k' b = ht_get ht k' b) \<and>
            (count_ht ht' = count_ht ht \<or> count_ht ht' = count_ht ht + 1) \<and>
            (count_ht ht + 1 \<noteq> 0 \<longrightarrow> ht_load_factor ht' > 0.75))"
proof -
  have wf: "wf_table ht" using reachable_wf[OF assms(1)] .
  have keep: "ht_resize ht (size_ht ht * 2) c = Inr ht" using ht_resize_fail[OF assms(3)] .
  have alt: "ht_put ht k v c m = put_entry ht k v m"
    using assms(2) keep by (simp add: ht_put_alt)
  obtain ht' where ht': "put_entry ht k v m = Inr ht'" "wf_table ht'"
    "size_ht ht' = size_ht ht"
    "k \<in> dom (table_map ht) \<or> m \<longrightarrow> table_map ht' = (table_map ht)(k \<mapsto> v)"
    "k \<notin> dom (table_map ht) \<and> \<not> m \<longrightarrow> ht' = ht"
    "count_ht ht' = (if k \<in> dom (table_map ht) \<or> \<not> m then count_ht ht else count_ht ht + 1)"
    using put_entry_wf[OF wf, of k v m] by blast
  have len: "length (buckets ht') = length (buckets ht)"
    using wf ht'(2,3) by (simp add: wf_table_def)
  have found: "ht_get ht' k True = Inr (True, Some v)"
    if "m \<or> k \<in> key ` set (concat (buckets ht))"
  proof -
    have "k \<in> dom (table_map ht) \<or> m" using that by (auto simp: dom_table_map entries_def)
    then have "table_map ht' k = Some v" using ht'(4) by simp
    then show ?thesis using ht_get_found[OF ht'(2), of k v True] by simp
  qed
  have "table_map ht' k' = table_map ht k'" if "k' \<noteq> k" for k'
    using ht'(4,5) that by (cases "k \<in> dom (table_map ht) \<or> m") auto
  then have others: "\<forall>k' b. k' \<noteq> k \<longrightarrow> ht_get ht' k' b = ht_get ht k' b"
    using ht_get_cong[OF wf ht'(2)] by simp
  have cnt: "count_ht ht' = count_ht ht \<or> count_ht ht' = count_ht ht + 1"
    using ht'(6) by (cases "k \<in> dom (table_map ht) \<or> \<not> m") simp_all
  have lf: "ht_load_factor ht' > 0.75" if nowrap: "count_ht ht + 1 \<noteq> 0"
  proof -
    have "unat (1 + count_ht ht) = Suc (unat (count_ht ht))"
      using nowrap by (intro unatSuc) (simp add: add.commute)
    then have "unat (count_ht ht) \<le> unat (count_ht ht + 1)" by (simp add: add.commute)
    then have "unat (count_ht ht) \<le> unat (count_ht ht')" using cnt by auto
    then have "real (unat (count_ht ht)) \<le> real (unat (count_ht ht'))"
      by (simp only: of_nat_le_iff)
    then have "ht_load_factor ht \<le> ht_load_factor ht'"
      unfolding ht_load_factor_def ht'(3) by (rule divide_right_mono) (rule of_nat_0_le_iff)
    then show ?thesis using assms(2) by simp
  qed
  show ?thesis using keep alt ht'(1,3) len found others cnt lf by auto
qed

theorem resize_failure_witness:
  "reachable \<lparr>buckets = [[\<lparr>key = 1, value_e = 10\<rparr>], [\<lparr>key = 4, value_e = 40\<rparr>],
                         [\<lparr>key = 3, value_e = 30\<rparr>], [\<lparr>key = 2, value_e = 20\<rparr>]],
              size_ht = 4, count_ht = 4\<rparr> \<and>
   ht_load_factor \<lparr>buckets = [[\<lparr>key = 1, value_e = 10\<rparr>], [\<lparr>key = 4, value_e = 40\<rparr>],
                         [\<lparr>key = 3, value_e = 30\<rparr>], [\<lparr>key = 2, value_e = 20\<rparr>]],
              size_ht = 4, count_ht = 4\<rparr> > 0.75 \<and>
   \<not> calloc_ok False (4 * 2) 8 \<and>
   ht_put \<lparr>buckets = [[\<lparr>key = 1, value_e = 10\<rparr>], [\<lparr>key = 4, value_e = 40\<rparr>],
                      [\<lparr>key = 3, value_e = 30\<rparr>], [\<lparr>key = 2, value_e = 20\<rparr>]],
           size_ht = 4, count_ht = 4\<rparr> 5 50 False True =
     Inr \<lparr>buckets = [[\<lparr>key = 1, value_e = 10\<rparr>],
                     [\<lparr>key = 5, value_e = 50\<rparr>, \<lparr>key = 4, value_e = 40\<rparr>],
                     [\<lparr>key = 3, value_e = 30\<rparr>], [\<lparr>key = 2, value_e = 20\<rparr>]],
          size_ht = 4, count_ht = 5\<rparr> \<and>
   ht_get \<lparr>buckets = [[\<lparr>key = 1, value_e = 10\<rparr>],
                     [\<lparr>key = 5, value_e = 50\<rparr>, \<lparr>key = 4, value_e = 40\<rparr>],
                     [\<lparr>key = 3, value_e = 30\<rparr>], [\<lparr>key = 2, value_e = 20\<rparr>]],
          size_ht = 4, count_ht = 5\<rparr> 5 True = Inr (True, Some 50) \<and>
   ht_load_factor \<lparr>buckets = [[\<lparr>key = 1, value_e = 10\<rparr>],
                     [\<lparr>key = 5, value_e = 50\<rparr>, \<lparr>key = 4, value_e = 40\<rparr>],
                     [\<lparr>key = 3, value_e = 30\<rparr>], [\<lparr>key = 2, value_e = 20\<rparr>]],
          size_ht = 4, count_ht = 5\<rparr> > 0.75"
proof -
  let ?T0 = "\<lparr>buckets = [[], [], [], []], size_ht = 4, count_ht = 0\<rparr>"
  let ?T4 = "\<lparr>buckets = [[\<lparr>key = 1, value_e = 10\<rparr>], [\<lparr>key = 4, value_e = 40\<rparr>],
                         [\<lparr>key = 3, value_e = 30\<rparr>], [\<lparr>key = 2, value_e = 20\<rparr>]],
              size_ht = 4, count_ht = 4\<rparr>"
  let ?T5 = "\<lparr>buckets = [[\<lparr>key = 1, value_e = 10\<rparr>],
                     [\<lparr>key = 5, value_e = 50\<rparr>, \<lparr>key = 4, value_e = 40\<rparr>],
                     [\<lparr>key = 3, value_e = 30\<rparr>], [\<lparr>key = 2, value_e = 20\<rparr>]],
          size_ht = 4, count_ht = 5\<rparr>"
  have c0: "ht_create 4 True True = Some ?T0" by code_simp
  have r0: "reachable ?T0" using reachable.create[OF _ c0] by simp
  have "ht_put_all ?T0 [(1, 10, True, True), (2, 20, True, True), (3, 30, True, True),
                        (4, 40, True, True)] = Inr ?T4"
    by code_simp
  then have r4: "reachable ?T4" using reachable_put_all[OF r0] by blast
  have lf: "ht_load_factor ?T4 > 0.75" by (simp add: ht_load_factor_def)
  have no: "\<not> calloc_ok False (size_ht ?T4 * 2) 8" by (simp add: calloc_ok_def)
  have no': "\<not> calloc_ok False (4 * 2) 8" by (simp add: calloc_ok_def)
  have p5: "ht_put ?T4 5 50 False True = Inr ?T5" by code_simp
  obtain ht' where h: "ht_put ?T4 5 50 False True = Inr ht'"
    "True \<or> 5 \<in> key ` set (concat (buckets ?T4)) \<longrightarrow> ht_get ht' 5 True = Inr (True, Some 50)"
    "count_ht ?T4 + 1 \<noteq> 0 \<longrightarrow> ht_load_factor ht' > 0.75"
    using resize_failure[OF r4 lf no, of 5 50 True] by blast
  have e: "ht' = ?T5" using h(1) p5 by simp
  have g: "ht_get ?T5 5 True = Inr (True, Some 50)" using h(2) e by blast
  have "count_ht ?T4 + 1 \<noteq> 0" by simp
  then have l: "ht_load_factor ?T5 > 0.75" using h(3) e by blast
  show ?thesis using r4 lf no' p5 g l by blast
qed

section \<open>Looking up a partition\<close>

text \<open>
  C9. \<^verbatim>\<open>query_partition\<close> returns the value stored with the key when the partition
  map exists and holds the key, and \<open>-1\<close> as an \<^verbatim>\<open>affinity_value_t\<close>, that is
  \<open>0xFFFFFFFF\<close>, when the map holds no such key and also when the map is \<^verbatim>\<open>NULL\<close>.
  \<^verbatim>\<open>ht_get_value\<close> answers a table in the same way.
\<close>

theorem query_partition_law:
  assumes "reachable ht"
  shows "query_partition None k = Inr (- 1) \<and>
         (\<lparr>key = k, value_e = v\<rparr> \<in> set (concat (buckets ht)) \<longrightarrow>
            query_partition (Some ht) k = Inr v \<and> ht_get_value ht k = Inr v) \<and>
         (k \<notin> key ` set (concat (buckets ht)) \<longrightarrow>
            query_partition (Some ht) k = Inr (- 1) \<and> ht_get_value ht k = Inr (- 1)) \<and>
         (- 1 :: affinity_value_t) = 0xFFFFFFFF"
proof -
  have wf: "wf_table ht" using reachable_wf[OF assms] .
  have null: "query_partition None k = Inr (- 1)" by (simp add: query_partition_def)
  have found: "query_partition (Some ht) k = Inr v \<and> ht_get_value ht k = Inr v"
    if "\<lparr>key = k, value_e = v\<rparr> \<in> set (concat (buckets ht))"
  proof -
    have tm: "table_map ht k = Some v"
      using that table_map_Some[OF wf, of k v] by (simp add: entries_def)
    then have "ht_get ht k True = Inr (True, Some v)"
      using ht_get_found[OF wf, of k v True] by simp
    then have "query_partition (Some ht) k = Inr v" by (simp add: query_partition_def)
    then show ?thesis using ht_get_value_table_map[OF wf, of k] tm by simp
  qed
  have missing: "query_partition (Some ht) k = Inr (- 1) \<and> ht_get_value ht k = Inr (- 1)"
    if "k \<notin> key ` set (concat (buckets ht))"
  proof -
    have tm: "table_map ht k = None"
      using that table_map_None[of ht k] by (simp add: entries_def)
    then have "ht_get ht k True = Inr (False, None)" using ht_get_missing[OF wf] by simp
    then have "query_partition (Some ht) k = Inr (- 1)" by (simp add: query_partition_def)
    then show ?thesis using ht_get_value_table_map[OF wf, of k] tm by simp
  qed
  have "(- 1 :: affinity_value_t) = 0xFFFFFFFF" by simp
  then show ?thesis using null found missing by blast
qed

theorem query_partition_law_witness:
  "reachable \<lparr>buckets = [[\<lparr>key = 1, value_e = 10\<rparr>], [\<lparr>key = 4, value_e = 40\<rparr>],
                         [\<lparr>key = 3, value_e = 30\<rparr>], [\<lparr>key = 2, value_e = 20\<rparr>]],
              size_ht = 4, count_ht = 4\<rparr> \<and>
   query_partition None 3 = Inr 0xFFFFFFFF \<and>
   query_partition (Some \<lparr>buckets = [[\<lparr>key = 1, value_e = 10\<rparr>], [\<lparr>key = 4, value_e = 40\<rparr>],
                         [\<lparr>key = 3, value_e = 30\<rparr>], [\<lparr>key = 2, value_e = 20\<rparr>]],
              size_ht = 4, count_ht = 4\<rparr>) 3 = Inr 30 \<and>
   query_partition (Some \<lparr>buckets = [[\<lparr>key = 1, value_e = 10\<rparr>], [\<lparr>key = 4, value_e = 40\<rparr>],
                         [\<lparr>key = 3, value_e = 30\<rparr>], [\<lparr>key = 2, value_e = 20\<rparr>]],
              size_ht = 4, count_ht = 4\<rparr>) 9 = Inr 0xFFFFFFFF"
proof -
  let ?T0 = "\<lparr>buckets = [[], [], [], []], size_ht = 4, count_ht = 0\<rparr>"
  let ?T4 = "\<lparr>buckets = [[\<lparr>key = 1, value_e = 10\<rparr>], [\<lparr>key = 4, value_e = 40\<rparr>],
                         [\<lparr>key = 3, value_e = 30\<rparr>], [\<lparr>key = 2, value_e = 20\<rparr>]],
              size_ht = 4, count_ht = 4\<rparr>"
  have c0: "ht_create 4 True True = Some ?T0" by code_simp
  have r0: "reachable ?T0" using reachable.create[OF _ c0] by simp
  have "ht_put_all ?T0 [(1, 10, True, True), (2, 20, True, True), (3, 30, True, True),
                        (4, 40, True, True)] = Inr ?T4"
    by code_simp
  then have r4: "reachable ?T4" using reachable_put_all[OF r0] by blast
  have in3: "\<lparr>key = 3, value_e = 30\<rparr> \<in> set (concat (buckets ?T4))" by simp
  have out9: "9 \<notin> key ` set (concat (buckets ?T4))" by simp
  have a: "query_partition None 3 = Inr (- 1)"
    and b: "query_partition (Some ?T4) 3 = Inr 30"
    using query_partition_law[OF r4, of 3 30] in3 by blast+
  have c: "query_partition (Some ?T4) 9 = Inr (- 1)"
    using query_partition_law[OF r4, of 9 0] out9 by blast
  show ?thesis using r4 a b c by simp
qed

section \<open>A bucket count of zero\<close>

text \<open>
  C10. \<^verbatim>\<open>ht_create\<close> returns a table for a requested size of 0 (when \<^verbatim>\<open>calloc(0, 8)\<close>
  returns a pointer). On that table \<^verbatim>\<open>ht_put\<close>, \<^verbatim>\<open>ht_get\<close>, \<^verbatim>\<open>ht_get_value\<close>,
  \<^verbatim>\<open>ht_contains\<close> and \<^verbatim>\<open>ht_remove\<close> all take a remainder by zero in \<^verbatim>\<open>hash\<close>; on a table
  created with any other size they all return.
\<close>

theorem zero_capacity:
  "ht_create 0 True True = Some \<lparr>buckets = [], size_ht = 0, count_ht = 0\<rparr> \<and>
   (ht_create sz m0 c0 = Some ht \<longrightarrow>
      (sz = 0 \<longrightarrow>
         ht_put ht k v c m = Inl DivisionByZero \<and>
         ht_get ht k b = Inl DivisionByZero \<and>
         ht_get_value ht k = Inl DivisionByZero \<and>
         ht_contains ht k = Inl DivisionByZero \<and>
         ht_remove ht k = Inl DivisionByZero) \<and>
      (sz \<noteq> 0 \<longrightarrow>
         (\<exists>r. ht_put ht k v c m = Inr r) \<and>
         (\<exists>r. ht_get ht k b = Inr r) \<and>
         (\<exists>r. ht_get_value ht k = Inr r) \<and>
         (\<exists>r. ht_contains ht k = Inr r) \<and>
         (\<exists>r. ht_remove ht k = Inr r)))"
proof -
  have zero_ok: "ht_create 0 True True = Some \<lparr>buckets = [], size_ht = 0, count_ht = 0\<rparr>"
    by (simp add: ht_create_def calloc_ok_def)
  have zero: "ht_put ht k v c m = Inl DivisionByZero \<and>
         ht_get ht k b = Inl DivisionByZero \<and>
         ht_get_value ht k = Inl DivisionByZero \<and>
         ht_contains ht k = Inl DivisionByZero \<and>
         ht_remove ht k = Inl DivisionByZero"
    if "ht_create sz m0 c0 = Some ht" "sz = 0"
  proof -
    have ht: "ht = \<lparr>buckets = [], size_ht = 0, count_ht = 0\<rparr>"
      using that by (simp add: ht_create_def split: if_splits)
    have "ht_put ht k v c m = Inl DivisionByZero"
      unfolding ht by (simp add: ht_put_def ht_load_factor_def hash_zero)
    moreover have g: "ht_get ht k b' = Inl DivisionByZero" for b'
      unfolding ht by (simp add: ht_get_def hash_zero)
    moreover have "ht_get_value ht k = Inl DivisionByZero"
      unfolding ht by (simp add: ht_get_value_def hash_zero)
    moreover have "ht_contains ht k = Inl DivisionByZero"
      using g[of False] by (simp add: ht_contains_def)
    moreover have "ht_remove ht k = Inl DivisionByZero"
      unfolding ht by (simp add: ht_remove_def hash_zero)
    ultimately show ?thesis by simp
  qed
  have nonzero: "(\<exists>r. ht_put ht k v c m = Inr r) \<and>
         (\<exists>r. ht_get ht k b = Inr r) \<and>
         (\<exists>r. ht_get_value ht k = Inr r) \<and>
         (\<exists>r. ht_contains ht k = Inr r) \<and>
         (\<exists>r. ht_remove ht k = Inr r)"
    if "ht_create sz m0 c0 = Some ht" "sz \<noteq> 0"
  proof -
    have wf: "wf_table ht" using ht_create_wf[OF that] by simp
    have "\<exists>r. ht_put ht k v c m = Inr r" using ht_put_wf[OF wf, of k v c m] by blast
    moreover have g: "\<exists>r. ht_get ht k b' = Inr r" for b'
      using ht_get_table_map[OF wf, of k b'] by simp
    moreover have "\<exists>r. ht_get_value ht k = Inr r"
      using ht_get_value_table_map[OF wf, of k] by simp
    moreover have "\<exists>r. ht_contains ht k = Inr r"
      using g[of False] by (auto simp: ht_contains_def)
    moreover have "\<exists>r. ht_remove ht k = Inr r" using ht_remove_wf[OF wf, of k] by blast
    ultimately show ?thesis by simp
  qed
  show ?thesis using zero_ok zero nonzero by blast
qed

theorem zero_capacity_witness:
  "ht_create 0 True True = Some \<lparr>buckets = [], size_ht = 0, count_ht = 0\<rparr> \<and>
   ht_put \<lparr>buckets = [], size_ht = 0, count_ht = 0\<rparr> 1 10 True True = Inl DivisionByZero \<and>
   ht_get \<lparr>buckets = [], size_ht = 0, count_ht = 0\<rparr> 1 True = Inl DivisionByZero \<and>
   ht_get_value \<lparr>buckets = [], size_ht = 0, count_ht = 0\<rparr> 1 = Inl DivisionByZero \<and>
   ht_contains \<lparr>buckets = [], size_ht = 0, count_ht = 0\<rparr> 1 = Inl DivisionByZero \<and>
   ht_remove \<lparr>buckets = [], size_ht = 0, count_ht = 0\<rparr> 1 = Inl DivisionByZero \<and>
   ht_create 4 True True = Some \<lparr>buckets = [[], [], [], []], size_ht = 4, count_ht = 0\<rparr> \<and>
   (\<exists>r. ht_put \<lparr>buckets = [[], [], [], []], size_ht = 4, count_ht = 0\<rparr> 1 10 True True = Inr r)"
proof -
  let ?Z = "\<lparr>buckets = [], size_ht = 0, count_ht = 0\<rparr>"
  let ?T0 = "\<lparr>buckets = [[], [], [], []], size_ht = 4, count_ht = 0\<rparr>"
  have z: "ht_create 0 True True = Some ?Z"
    and zs: "ht_put ?Z 1 10 True True = Inl DivisionByZero \<and>
         ht_get ?Z 1 True = Inl DivisionByZero \<and>
         ht_get_value ?Z 1 = Inl DivisionByZero \<and>
         ht_contains ?Z 1 = Inl DivisionByZero \<and>
         ht_remove ?Z 1 = Inl DivisionByZero"
    using zero_capacity[of 0 True True ?Z 1 10 True True True] by simp_all
  have c4: "ht_create 4 True True = Some ?T0" by code_simp
  have "\<exists>r. ht_put ?T0 1 10 True True = Inr r"
    using zero_capacity[of 4 True True ?T0 1 10 True True True] c4 by simp
  then show ?thesis using z zs c4 by blast
qed

end
